theory Spec2Isabelle
  imports Main
begin

section \<open>Data model (automata/ap.py)\<close>

text \<open>
  A symbol is a one-character Python string and is modelled by \<open>char\<close>; a word and a
  push string are \<open>string\<close>s.  A Python \<open>set\<close> is a duplicate-free list whose order
  stands for the (unspecified) iteration order, a \<open>dict\<close> is an association list in
  insertion order with one entry per key.  The state type \<open>'q\<close> is any hashable value;
  \<open>None\<close> is not a state, so the field \<open>initial_state\<close> is an option.

  Every exception the classes raise is a \<open>ValueError\<close>; the constructor argument records
  which \<open>raise\<close> statement produced it.  \<open>KeyError\<close> is what \<open>set.remove\<close> raises.
\<close>

datatype raise_site =
    StateAlreadyPresent
  | StateNotPresent
  | TransitionExists
  | LambdaTransitionExists
  | SymbolTransitionExists

datatype error = ValueError raise_site | KeyError

record 'q ap =
  states :: "'q list"
  initial_state :: "'q option"
  final_states :: "'q list"
  transitions :: "(('q \<times> char option \<times> char) \<times> ('q \<times> string)) list"
  input_alphabet :: "char list"
  stack_alphabet :: "char list"
  initial_stack_symbol :: char

text \<open>\<open>SpecialStackSymbol.EMPTY\<close> is the code point U+22A5, which no 8-bit \<open>char\<close>
  denotes; the byte \<open>0xFF\<close> stands for it.\<close>

definition EMPTY :: char where
  "EMPTY = CHR 0xFF"

definition set_add :: "'a \<Rightarrow> 'a list \<Rightarrow> 'a list" where
  "set_add x xs = (if x \<in> set xs then xs else xs @ [x])"

definition set_remove :: "'a \<Rightarrow> 'a list \<Rightarrow> 'a list" where
  "set_remove x xs = filter (\<lambda>y. y \<noteq> x) xs"

fun dict_set :: "'k \<Rightarrow> 'v \<Rightarrow> ('k \<times> 'v) list \<Rightarrow> ('k \<times> 'v) list" where
  "dict_set k v [] = [(k, v)]"
| "dict_set k v ((k', v') # ps) =
     (if k' = k then (k, v) # ps else (k', v') # dict_set k v ps)"

definition dict_mem :: "'k \<Rightarrow> ('k \<times> 'v) list \<Rightarrow> bool" where
  "dict_mem k d = (map_of d k \<noteq> None)"

definition bind_err :: "error + 'a \<Rightarrow> ('a \<Rightarrow> error + 'b) \<Rightarrow> error + 'b" where
  "bind_err m f = (case m of Inl e \<Rightarrow> Inl e | Inr x \<Rightarrow> f x)"

definition AP_init :: "'q ap" where
  "AP_init = \<lparr> states = [], initial_state = None, final_states = [],
               transitions = [], input_alphabet = [], stack_alphabet = [],
               initial_stack_symbol = EMPTY \<rparr>"

definition add_state :: "'q ap \<Rightarrow> 'q \<Rightarrow> bool \<Rightarrow> error + 'q ap" where
  "add_state P state final =
     (if state \<in> set (states P) then Inl (ValueError StateAlreadyPresent)
      else Inr (P\<lparr> states := set_add state (states P),
                  final_states := (if final then set_add state (final_states P)
                                   else final_states P) \<rparr>))"

definition mark_initial_state :: "'q ap \<Rightarrow> 'q \<Rightarrow> error + 'q ap" where
  "mark_initial_state P state =
     (if state \<notin> set (states P) then Inl (ValueError StateNotPresent)
      else Inr (P\<lparr> initial_state := Some state \<rparr>))"

definition set_initial_stack_symbol :: "'q ap \<Rightarrow> char \<Rightarrow> 'q ap" where
  "set_initial_stack_symbol P symbol =
     P\<lparr> initial_stack_symbol := symbol,
        stack_alphabet := set_add symbol (stack_alphabet P) \<rparr>"

section \<open>Deterministic pushdown automaton (automata/apd.py)\<close>

definition add_transition ::
  "'q ap \<Rightarrow> 'q \<Rightarrow> 'q \<Rightarrow> char option \<Rightarrow> char \<Rightarrow> string \<Rightarrow> error + 'q ap" where
  "add_transition P state new_state input_symbol stack_top stack_push =
     (if state \<notin> set (states P) then Inl (ValueError StateNotPresent)
      else if new_state \<notin> set (states P) then Inl (ValueError StateNotPresent)
      else if dict_mem (state, input_symbol, stack_top) (transitions P)
        then Inl (ValueError TransitionExists)
      else if input_symbol \<noteq> None \<and> dict_mem (state, None, stack_top) (transitions P)
        then Inl (ValueError LambdaTransitionExists)
      else if input_symbol = None \<and>
              list_ex (\<lambda>symbol. dict_mem (state, Some symbol, stack_top) (transitions P))
                (input_alphabet P)
        then Inl (ValueError SymbolTransitionExists)
      else Inr (P\<lparr> transitions :=
                    dict_set (state, input_symbol, stack_top) (new_state, stack_push)
                      (transitions P),
                  input_alphabet :=
                    (case input_symbol of None \<Rightarrow> input_alphabet P
                     | Some a \<Rightarrow> set_add a (input_alphabet P)),
                  stack_alphabet :=
                    foldl (\<lambda>g symbol. set_add symbol g)
                      (set_add stack_top (stack_alphabet P)) stack_push \<rparr>))"

definition get_transition ::
  "'q ap \<Rightarrow> 'q \<Rightarrow> char option \<Rightarrow> char \<Rightarrow> ('q \<times> string) option" where
  "get_transition P state input_symbol stack_top =
     map_of (transitions P) (state, input_symbol, stack_top)"

text \<open>The stack is a list whose last element is the top, as in the source.\<close>

definition step_lambda :: "'q ap \<Rightarrow> 'q \<Rightarrow> string \<Rightarrow> string \<Rightarrow> ('q \<times> string \<times> string) option" where
  "step_lambda P state remaining_input stack =
     (case get_transition P state None (last stack) of
        Some (new_state, stack_string) \<Rightarrow>
          Some (new_state, remaining_input, butlast stack @ rev stack_string)
      | None \<Rightarrow> None)"

definition step :: "'q ap \<Rightarrow> 'q \<Rightarrow> string \<Rightarrow> string \<Rightarrow> ('q \<times> string \<times> string) option" where
  "step P state remaining_input stack =
     (if stack = [] then None
      else case remaining_input of
        [] \<Rightarrow> step_lambda P state remaining_input stack
      | input_symbol # rest \<Rightarrow>
          (case get_transition P state (Some input_symbol) (last stack) of
             Some (new_state, stack_string) \<Rightarrow>
               Some (new_state, rest, butlast stack @ rev stack_string)
           | None \<Rightarrow> step_lambda P state remaining_input stack))"

text \<open>The acceptance test of \<open>accepts\<close>; the source evaluates the same nested \<open>if\<close> inside
  the loop and after it.\<close>

definition acceptance_check :: "'q ap \<Rightarrow> string \<Rightarrow> 'q \<Rightarrow> string \<Rightarrow> string \<Rightarrow> bool" where
  "acceptance_check P acceptance_mode state remaining_input stack =
     (remaining_input = [] \<and>
      (if acceptance_mode = ''final_state'' then state \<in> set (final_states P)
       else if acceptance_mode = ''empty_stack'' then stack = []
       else False))"

text \<open>The \<open>while steps < max_steps\<close> loop; the first argument after the mode is
  \<open>max_steps - steps\<close>.\<close>

fun accepts_loop :: "'q ap \<Rightarrow> string \<Rightarrow> nat \<Rightarrow> 'q \<Rightarrow> string \<Rightarrow> string \<Rightarrow> bool" where
  "accepts_loop P acceptance_mode 0 state remaining_input stack =
     acceptance_check P acceptance_mode state remaining_input stack"
| "accepts_loop P acceptance_mode (Suc n) state remaining_input stack =
     (if acceptance_check P acceptance_mode state remaining_input stack then True
      else case step P state remaining_input stack of
        None \<Rightarrow> acceptance_check P acceptance_mode state remaining_input stack
      | Some (state', remaining_input', stack') \<Rightarrow>
          accepts_loop P acceptance_mode n state' remaining_input' stack')"

definition max_steps :: "string \<Rightarrow> nat" where
  "max_steps word = length word * 100 + 1000"

text \<open>With no initial state marked the run starts in \<open>None\<close>: no key of the table and no
  final state equals it and the stack holds one symbol, so the loop breaks at once and
  the result is \<open>False\<close> in every mode.\<close>

definition accepts :: "'q ap \<Rightarrow> string \<Rightarrow> string \<Rightarrow> bool" where
  "accepts P word acceptance_mode =
     (case initial_state P of
        None \<Rightarrow> False
      | Some q0 \<Rightarrow>
          accepts_loop P acceptance_mode (max_steps word) q0 word [initial_stack_symbol P])"

definition is_deterministic :: "'q ap \<Rightarrow> bool" where
  "is_deterministic P =
     list_all (\<lambda>(state, input_sym, stack_sym).
        input_sym \<noteq> None \<or>
        list_all (\<lambda>symbol. \<not> dict_mem (state, Some symbol, stack_sym) (transitions P))
          (input_alphabet P))
       (map fst (transitions P))"

section \<open>Complement construction (automata/apdc.py)\<close>

text \<open>The first loop: three states per state of the source.\<close>

fun add_marked_states :: "('q \<times> nat) ap \<Rightarrow> 'q list \<Rightarrow> error + ('q \<times> nat) ap" where
  "add_marked_states C [] = Inr C"
| "add_marked_states C (q # qs) =
     bind_err (add_state C (q, 0) False) (\<lambda>C.
     bind_err (add_state C (q, 1) False) (\<lambda>C.
     bind_err (add_state C (q, 2) True) (\<lambda>C.
     add_marked_states C qs)))"

text \<open>When the source has no initial state the source evaluates
  \<open>C.mark_initial_state((None, 0))\<close>, which raises because \<open>(None, 0)\<close> was never added.\<close>

definition mark_complement_initial :: "'q ap \<Rightarrow> ('q \<times> nat) ap \<Rightarrow> error + ('q \<times> nat) ap" where
  "mark_complement_initial P C =
     (case initial_state P of
        None \<Rightarrow> Inl (ValueError StateNotPresent)
      | Some q0 \<Rightarrow>
          if q0 \<in> set (final_states P) then mark_initial_state C (q0, 1)
          else mark_initial_state C (q0, 0))"

definition final_index :: "'q ap \<Rightarrow> 'q \<Rightarrow> nat" where
  "final_index P p = (if p \<in> set (final_states P) then 1 else 0)"

fun rule_i ::
  "'q ap \<Rightarrow> ('q \<times> nat) ap \<Rightarrow> (('q \<times> char option \<times> char) \<times> ('q \<times> string)) list
     \<Rightarrow> error + ('q \<times> nat) ap" where
  "rule_i P C [] = Inr C"
| "rule_i P C (((q, input_symbol, stack_symbol), (p, stack_push)) # ts) =
     (if input_symbol = None then rule_i P C ts
      else
        bind_err (add_transition C (q, 1) (p, final_index P p) input_symbol stack_symbol stack_push) (\<lambda>C.
        bind_err (add_transition C (q, 2) (p, final_index P p) input_symbol stack_symbol stack_push) (\<lambda>C.
        rule_i P C ts)))"

fun rule_ii ::
  "'q ap \<Rightarrow> ('q \<times> nat) ap \<Rightarrow> (('q \<times> char option \<times> char) \<times> ('q \<times> string)) list
     \<Rightarrow> error + ('q \<times> nat) ap" where
  "rule_ii P C [] = Inr C"
| "rule_ii P C (((q, input_symbol, stack_symbol), (p, stack_push)) # ts) =
     (if input_symbol \<noteq> None then rule_ii P C ts
      else
        bind_err (add_transition C (q, 1) (p, 1) None stack_symbol stack_push) (\<lambda>C.
        bind_err (add_transition C (q, 0) (p, final_index P p) None stack_symbol stack_push) (\<lambda>C.
        rule_ii P C ts)))"

fun rule_iii_symbols :: "'q ap \<Rightarrow> ('q \<times> nat) ap \<Rightarrow> 'q \<Rightarrow> char list \<Rightarrow> error + ('q \<times> nat) ap" where
  "rule_iii_symbols P C q [] = Inr C"
| "rule_iii_symbols P C q (stack_symbol # xs) =
     (if \<not> dict_mem (q, None, stack_symbol) (transitions P) then
        bind_err (add_transition C (q, 0) (q, 2) None stack_symbol [stack_symbol]) (\<lambda>C.
        rule_iii_symbols P C q xs)
      else rule_iii_symbols P C q xs)"

fun rule_iii :: "'q ap \<Rightarrow> ('q \<times> nat) ap \<Rightarrow> 'q list \<Rightarrow> error + ('q \<times> nat) ap" where
  "rule_iii P C [] = Inr C"
| "rule_iii P C (q # qs) =
     bind_err (rule_iii_symbols P C q (stack_alphabet P)) (\<lambda>C. rule_iii P C qs)"

definition crear_automata_complemento :: "'q ap \<Rightarrow> error + ('q \<times> nat) ap" where
  "crear_automata_complemento P =
     bind_err (add_marked_states AP_init (states P)) (\<lambda>C.
     bind_err (mark_complement_initial P C) (\<lambda>C.
     let C = C\<lparr> input_alphabet := input_alphabet P \<rparr>;
         C = C\<lparr> stack_alphabet := stack_alphabet P \<rparr>;
         C = set_initial_stack_symbol C (initial_stack_symbol P)
     in
     bind_err (rule_i P C (transitions P)) (\<lambda>C.
     bind_err (rule_ii P C (transitions P)) (\<lambda>C.
     rule_iii P C (states P)))))"

text \<open>\<open>accepts\<close> of the automaton a fallible construction returned.\<close>

definition accepts_result :: "error + 'q ap \<Rightarrow> string \<Rightarrow> string \<Rightarrow> bool option" where
  "accepts_result r word acceptance_mode =
     (case r of Inl e \<Rightarrow> None | Inr A \<Rightarrow> Some (accepts A word acceptance_mode))"


definition the_automaton :: "error + 'q ap \<Rightarrow> 'q ap" where
  "the_automaton r = (case r of Inl e \<Rightarrow> AP_init | Inr A \<Rightarrow> A)"

text \<open>\<open>accepts\<close> contains no \<open>raise\<close>: whatever the arguments, its outcome is a returned
  Boolean.\<close>

definition accepts_outcome :: "'q ap \<Rightarrow> string \<Rightarrow> string \<Rightarrow> error + bool" where
  "accepts_outcome P word acceptance_mode = Inr (accepts P word acceptance_mode)"

section \<open>Builder scripts\<close>

text \<open>A client builds an automaton by a sequence of calls of the four builder methods;
  an exception ends the script.\<close>

datatype 'q builder_op =
    Add_state 'q bool
  | Mark_initial_state 'q
  | Set_initial_stack_symbol char
  | Add_transition 'q 'q "char option" char string

fun apply_op :: "'q ap \<Rightarrow> 'q builder_op \<Rightarrow> error + 'q ap" where
  "apply_op P (Add_state state final) = add_state P state final"
| "apply_op P (Mark_initial_state state) = mark_initial_state P state"
| "apply_op P (Set_initial_stack_symbol symbol) = Inr (set_initial_stack_symbol P symbol)"
| "apply_op P (Add_transition state new_state input_symbol stack_top stack_push) =
     add_transition P state new_state input_symbol stack_top stack_push"

fun build :: "'q ap \<Rightarrow> 'q builder_op list \<Rightarrow> error + 'q ap" where
  "build P [] = Inr P"
| "build P (c # cs) = bind_err (apply_op P c) (\<lambda>P. build P cs)"

definition built :: "'q ap \<Rightarrow> bool" where
  "built P \<longleftrightarrow> (\<exists>cs. build AP_init cs = Inr P)"

section \<open>The automata of the test suite\<close>

text \<open>\<open>test_complemento_lenguaje_simple\<close>: the language \<open>a\<^sup>n b\<close>, \<open>n \<ge> 1\<close>, with a trap
  state.\<close>

definition reference_ops :: "string builder_op list" where
  "reference_ops =
     [Add_state ''q0'' False, Add_state ''q1'' False, Add_state ''q2'' True,
      Add_state ''trap'' False,
      Mark_initial_state ''q0'',
      Set_initial_stack_symbol CHR ''Z'',
      Add_transition ''q0'' ''q1'' (Some CHR ''a'') CHR ''Z'' ''AZ'',
      Add_transition ''q1'' ''q1'' (Some CHR ''a'') CHR ''Z'' ''AZ'',
      Add_transition ''q1'' ''q1'' (Some CHR ''a'') CHR ''A'' ''AA'',
      Add_transition ''q1'' ''q2'' (Some CHR ''b'') CHR ''Z'' ''Z'',
      Add_transition ''q1'' ''q2'' (Some CHR ''b'') CHR ''A'' ''A'',
      Add_transition ''q0'' ''trap'' (Some CHR ''b'') CHR ''Z'' ''Z'',
      Add_transition ''q2'' ''trap'' (Some CHR ''a'') CHR ''Z'' ''Z'',
      Add_transition ''q2'' ''trap'' (Some CHR ''b'') CHR ''Z'' ''Z'',
      Add_transition ''q2'' ''trap'' (Some CHR ''a'') CHR ''A'' ''A'',
      Add_transition ''q2'' ''trap'' (Some CHR ''b'') CHR ''A'' ''A'',
      Add_transition ''trap'' ''trap'' (Some CHR ''a'') CHR ''Z'' ''Z'',
      Add_transition ''trap'' ''trap'' (Some CHR ''b'') CHR ''Z'' ''Z'',
      Add_transition ''trap'' ''trap'' (Some CHR ''a'') CHR ''A'' ''A'',
      Add_transition ''trap'' ''trap'' (Some CHR ''b'') CHR ''A'' ''A'']"

definition reference_P :: "string ap" where
  "reference_P = the_automaton (build AP_init reference_ops)"

definition reference_C :: "(string \<times> nat) ap" where
  "reference_C = the_automaton (crear_automata_complemento reference_P)"

text \<open>\<open>test_anbn\<close> of \<open>test_pila_simple.py\<close>: the language \<open>a\<^sup>n b\<^sup>n\<close>, \<open>n \<ge> 1\<close>.\<close>

definition anbn_ops :: "string builder_op list" where
  "anbn_ops =
     [Add_state ''q0'' False, Add_state ''q1'' False, Add_state ''qf'' True,
      Mark_initial_state ''q0'',
      Set_initial_stack_symbol CHR ''Z'',
      Add_transition ''q0'' ''q0'' (Some CHR ''a'') CHR ''Z'' ''AZ'',
      Add_transition ''q0'' ''q0'' (Some CHR ''a'') CHR ''A'' ''AA'',
      Add_transition ''q0'' ''q1'' (Some CHR ''b'') CHR ''A'' '''',
      Add_transition ''q1'' ''q1'' (Some CHR ''b'') CHR ''A'' '''',
      Add_transition ''q1'' ''qf'' None CHR ''Z'' ''Z'']"

definition anbn_P :: "string ap" where
  "anbn_P = the_automaton (build AP_init anbn_ops)"

definition anbn_C :: "(string \<times> nat) ap" where
  "anbn_C = the_automaton (crear_automata_complemento anbn_P)"

text \<open>One state that is not final, with a \<open>\<lambda>\<close>-transition to itself: every configuration
  of its run has a move.\<close>

definition lambda_loop_ops :: "string builder_op list" where
  "lambda_loop_ops =
     [Add_state ''q0'' False,
      Mark_initial_state ''q0'',
      Set_initial_stack_symbol CHR ''Z'',
      Add_transition ''q0'' ''q0'' None CHR ''Z'' ''Z'']"

definition lambda_loop_P :: "string ap" where
  "lambda_loop_P = the_automaton (build AP_init lambda_loop_ops)"

definition lambda_loop_C :: "(string \<times> nat) ap" where
  "lambda_loop_C = the_automaton (crear_automata_complemento lambda_loop_P)"

text \<open>A state is registered but no initial state is marked.\<close>

definition unmarked_P :: "string ap" where
  "unmarked_P = the_automaton (build AP_init [Add_state ''q0'' False])"

section \<open>Notions used to state the properties\<close>

text \<open>The configuration reached after \<open>n\<close> steps, if the run is that long.\<close>

fun run :: "'q ap \<Rightarrow> nat \<Rightarrow> 'q \<times> string \<times> string \<Rightarrow> ('q \<times> string \<times> string) option" where
  "run P 0 c = Some c"
| "run P (Suc n) (state, remaining_input, stack) =
     (case step P state remaining_input stack of
        None \<Rightarrow> None
      | Some c' \<Rightarrow> run P n c')"

definition accepting_configuration :: "'q ap \<Rightarrow> string \<Rightarrow> 'q \<times> string \<times> string \<Rightarrow> bool" where
  "accepting_configuration P acceptance_mode c =
     (case c of (state, remaining_input, stack) \<Rightarrow>
        acceptance_check P acceptance_mode state remaining_input stack)"

text \<open>After \<open>n\<close> steps on \<open>word\<close> the whole word has been read, the stack is not empty
  and no move is left.\<close>

definition rests_after :: "'q ap \<Rightarrow> nat \<Rightarrow> 'q \<Rightarrow> string \<Rightarrow> bool" where
  "rests_after P n q0 word =
     (case run P n (q0, word, [initial_stack_symbol P]) of
        None \<Rightarrow> False
      | Some (state, remaining_input, stack) \<Rightarrow>
          remaining_input = [] \<and> stack \<noteq> [] \<and> step P state remaining_input stack = None)"

text \<open>The determinism invariant: no pair of a state and a stack top carries both a
  \<open>\<lambda>\<close>-transition and a transition that reads a symbol.\<close>

definition deterministic_table :: "'q ap \<Rightarrow> bool" where
  "deterministic_table P =
     list_all (\<lambda>((q, a, X), v). a \<noteq> None \<or>
        list_all (\<lambda>((q', a', X'), v'). \<not> (q' = q \<and> X' = X \<and> a' \<noteq> None)) (transitions P))
       (transitions P)"

definition endpoints_registered :: "'q ap \<Rightarrow> bool" where
  "endpoints_registered P =
     list_all (\<lambda>((q, a, X), (p, s)). q \<in> set (states P) \<and> p \<in> set (states P))
       (transitions P)"

text \<open>The lists that stand for sets and dictionaries have no duplicates.\<close>

definition duplicate_free :: "'q ap \<Rightarrow> bool" where
  "duplicate_free P \<longleftrightarrow>
     distinct (states P) \<and> distinct (map fst (transitions P)) \<and>
     distinct (stack_alphabet P)"

definition symbols_registered :: "'q ap \<Rightarrow> bool" where
  "symbols_registered P =
     list_all (\<lambda>((q, a, X), (p, s)).
        (case a of None \<Rightarrow> True | Some c \<Rightarrow> c \<in> set (input_alphabet P)) \<and>
        X \<in> set (stack_alphabet P) \<and>
        list_all (\<lambda>x. x \<in> set (stack_alphabet P)) s)
       (transitions P)"

definition initial_registered :: "'q ap \<Rightarrow> bool" where
  "initial_registered P =
     (case initial_state P of None \<Rightarrow> True | Some q0 \<Rightarrow> q0 \<in> set (states P))"

definition finals_registered :: "'q ap \<Rightarrow> bool" where
  "finals_registered P = list_all (\<lambda>q. q \<in> set (states P)) (final_states P)"

definition well_formed :: "'q ap \<Rightarrow> bool" where
  "well_formed P \<longleftrightarrow>
     duplicate_free P \<and> endpoints_registered P \<and> symbols_registered P \<and>
     initial_registered P \<and> finals_registered P"

text \<open>The transitions the three rules of the complement construction produce.\<close>

definition rule_i_set ::
  "'q ap \<Rightarrow> (('q \<times> char option \<times> char) \<times> ('q \<times> string)) list
     \<Rightarrow> ((('q \<times> nat) \<times> char option \<times> char) \<times> (('q \<times> nat) \<times> string)) set" where
  "rule_i_set P ts =
     {(((q, m), Some a, X), ((p, final_index P p), s)) | q m a X p s.
        ((q, Some a, X), (p, s)) \<in> set ts \<and> (m = 1 \<or> m = 2)}"

definition rule_ii_set ::
  "'q ap \<Rightarrow> (('q \<times> char option \<times> char) \<times> ('q \<times> string)) list
     \<Rightarrow> ((('q \<times> nat) \<times> char option \<times> char) \<times> (('q \<times> nat) \<times> string)) set" where
  "rule_ii_set P ts =
     {(((q, 1), None, X), ((p, 1), s)) | q X p s.
        ((q, None, X), (p, s)) \<in> set ts} \<union>
     {(((q, 0), None, X), ((p, final_index P p), s)) | q X p s.
        ((q, None, X), (p, s)) \<in> set ts}"

definition rule_iii_set ::
  "'q ap \<Rightarrow> 'q list \<Rightarrow> char list
     \<Rightarrow> ((('q \<times> nat) \<times> char option \<times> char) \<times> (('q \<times> nat) \<times> string)) set" where
  "rule_iii_set P qs xs =
     {(((q, 0), None, X), ((q, 2), [X])) | q X.
        q \<in> set qs \<and> X \<in> set xs \<and>
        \<not> dict_mem (q, None, X) (transitions P)}"

definition same_registry :: "'q ap \<Rightarrow> 'q ap \<Rightarrow> bool" where
  "same_registry C C' \<longleftrightarrow>
     states C' = states C \<and> final_states C' = final_states C \<and>
     initial_state C' = initial_state C \<and>
     initial_stack_symbol C' = initial_stack_symbol C"

definition complement_of :: "'q ap \<Rightarrow> ('q \<times> nat) ap \<Rightarrow> bool" where
  "complement_of P C \<longleftrightarrow>
     crear_automata_complemento P = Inr C \<and> distinct (map fst (transitions P))"


text \<open>The three \<open>raise\<close> statements of \<open>add_transition\<close> that report a conflict with the
  determinism of the table.\<close>

definition raises_conflict :: "error + 'a \<Rightarrow> bool" where
  "raises_conflict r =
     (r = Inl (ValueError TransitionExists) \<or>
      r = Inl (ValueError LambdaTransitionExists) \<or>
      r = Inl (ValueError SymbolTransitionExists))"


section \<open>Renaming of states (automata/ap.py, automata/apd.py)\<close>

text \<open>\<open>normalize_states\<close> gives states names that are Python strings and looks at the
  strings among the states it finds.  A state is therefore a string or some other
  hashable value.\<close>

datatype 'o pystate = Str string | Obj 'o

definition dict_del :: "'k \<Rightarrow> ('k \<times> 'v) list \<Rightarrow> ('k \<times> 'v) list" where
  "dict_del k d = filter (\<lambda>(k', v). k' \<noteq> k) d"

definition rename_state_in_transitions ::
  "'q \<Rightarrow> 'q \<Rightarrow> (('q \<times> char option \<times> char) \<times> ('q \<times> string)) list
     \<Rightarrow> (('q \<times> char option \<times> char) \<times> ('q \<times> string)) list" where
  "rename_state_in_transitions old_name new_name ts =
     foldl (\<lambda>new_transitions ((state, input_sym, stack_sym), (target_state, stack_string)).
              dict_set ((if state = old_name then new_name else state), input_sym, stack_sym)
                ((if target_state = old_name then new_name else target_state), stack_string)
                new_transitions)
       [] ts"

definition rename_state :: "'q ap \<Rightarrow> 'q \<Rightarrow> 'q \<Rightarrow> error + 'q ap" where
  "rename_state P old_name new_name =
     (if old_name \<noteq> new_name then
        if old_name \<notin> set (states P) then Inl KeyError
        else Inr (P\<lparr> states := set_add new_name (set_remove old_name (states P)),
                    initial_state :=
                      (if initial_state P = Some old_name then Some new_name
                       else initial_state P),
                    final_states :=
                      (if old_name \<in> set (final_states P)
                       then set_add new_name (set_remove old_name (final_states P))
                       else final_states P),
                    transitions :=
                      rename_state_in_transitions old_name new_name (transitions P) \<rparr>)
      else Inr P)"

text \<open>\<open>str(n)\<close> for a natural number: its decimal digits.\<close>

definition digit_char :: "nat \<Rightarrow> char" where
  "digit_char d = ''0123456789'' ! d"

fun str_nat :: "nat \<Rightarrow> string" where
  "str_nat n = (if n < 10 then [digit_char n] else str_nat (n div 10) @ [digit_char (n mod 10)])"

text \<open>The dictionary \<open>new_names\<close>: the initial state becomes \<open>q0\<close>, the other states are
  numbered from 1 in the order in which the set difference is iterated.\<close>

definition new_names :: "'o pystate ap \<Rightarrow> ('o pystate \<times> string) list" where
  "new_names P =
     foldl (\<lambda>names (i, state).
              if \<not> dict_mem state names then dict_set state (''q'' @ str_nat (i + 1)) names
              else names)
       (case initial_state P of None \<Rightarrow> [] | Some q0 \<Rightarrow> [(q0, ''q0'')])
       (enumerate 0 (filter (\<lambda>state. Some state \<noteq> initial_state P) (states P)))"

text \<open>The \<open>while\<close> loop that orders the renames.  The \<open>for\<close> loop takes the first pending
  rename that is a no-op or whose new name is not a pending old name; its \<open>else\<close> branch
  takes the first pending rename and flags it to go through a temporary name.\<close>

function order_renames :: "('o pystate \<times> string) list \<Rightarrow> ('o pystate \<times> string \<times> bool) list" where
  "order_renames names =
     (if names = [] then []
      else
        case find (\<lambda>(old_name, new_name).
                     old_name = Str new_name \<or> \<not> dict_mem (Str new_name) names) names of
          Some (old_name, new_name) \<Rightarrow>
            (old_name, new_name, False) # order_renames (dict_del old_name names)
        | None \<Rightarrow>
            (fst (hd names), snd (hd names), True) # order_renames (dict_del (fst (hd names)) names))"
  by pat_completeness auto
termination
proof (relation "measure length")
  show "wf (measure length)" by simp
next
  fix names :: "('o pystate \<times> string) list" and x2 x y
  assume "names \<noteq> []"
    and f: "find (\<lambda>(old_name, new_name).
              old_name = Str new_name \<or> \<not> dict_mem (Str new_name) names) names = Some x2"
    and x: "(x, y) = x2"
  from f obtain i where "i < length names" "names ! i = x2"
    unfolding find_Some_iff by blast
  then have "x2 \<in> set names" using nth_mem by force
  with x have "(x, y) \<in> set names" by simp
  then have "length (filter (\<lambda>(k', v). k' \<noteq> x) names) < length names"
    by (intro length_filter_less[of "(x, y)"]) auto
  then show "(dict_del x names, names) \<in> measure length"
    by (simp add: dict_del_def)
next
  fix names :: "('o pystate \<times> string) list"
  assume "names \<noteq> []"
  then have "hd names \<in> set names" by simp
  then have "length (filter (\<lambda>(k', v). k' \<noteq> fst (hd names)) names) < length names"
    by (intro length_filter_less[of "hd names"]) (auto simp: case_prod_beta)
  then show "(dict_del (fst (hd names)) names, names) \<in> measure length"
    by (simp add: dict_del_def)
qed

definition name_length :: "'o pystate \<Rightarrow> nat" where
  "name_length s = (case s of Str n \<Rightarrow> length n | Obj x \<Rightarrow> 0)"

text \<open>\<open>while new_name in self.states: new_name = f"temp:{new_name}"\<close>\<close>

function fresh_name :: "'o pystate list \<Rightarrow> string \<Rightarrow> string" where
  "fresh_name sts new_name =
     (if Str new_name \<in> set sts then fresh_name sts (''temp:'' @ new_name) else new_name)"
  by pat_completeness auto
termination
proof (relation "measure (\<lambda>(sts, n). Suc (sum_list (map name_length sts)) - length n)")
  show "wf (measure (\<lambda>(sts, n). Suc (sum_list (map name_length sts)) - length n))" by simp
next
  fix sts :: "'o pystate list" and new_name
  assume "Str new_name \<in> set sts"
  then have "name_length (Str new_name :: 'o pystate) \<in> set (map name_length sts)"
    by force
  then have "name_length (Str new_name :: 'o pystate) \<le> sum_list (map name_length sts)"
    by (intro member_le_sum_list) simp_all
  then have "length new_name \<le> sum_list (map name_length sts)"
    by (simp add: name_length_def)
  then show "((sts, ''temp:'' @ new_name), (sts, new_name))
      \<in> measure (\<lambda>(sts, n). Suc (sum_list (map name_length sts)) - length n)"
    by simp
qed

declare fresh_name.simps [simp del] order_renames.simps [simp del] str_nat.simps [simp del]

fun apply_renames ::
  "'o pystate ap \<Rightarrow> ('o pystate \<times> string \<times> bool) list \<Rightarrow> error + 'o pystate ap" where
  "apply_renames P [] = Inr P"
| "apply_renames P ((old_name, new_name, use_temp) # rest) =
     bind_err
       (rename_state P old_name
          (Str (if use_temp then fresh_name (states P) new_name else new_name)))
       (\<lambda>P. apply_renames P rest)"

definition starts_with :: "string \<Rightarrow> string \<Rightarrow> bool" where
  "starts_with p s = (take (length p) s = p)"

text \<open>\<open>s.split(":")[-1]\<close>: what follows the last colon.\<close>

definition last_segment :: "string \<Rightarrow> string" where
  "last_segment s = rev (takeWhile (\<lambda>c. c \<noteq> CHR '':'') (rev s))"

text \<open>The last loop, over a copy of the state set taken before it starts.\<close>

fun strip_temps :: "'o pystate ap \<Rightarrow> 'o pystate list \<Rightarrow> error + 'o pystate ap" where
  "strip_temps P [] = Inr P"
| "strip_temps P (Str s # rest) =
     (if starts_with ''temp:'' s
      then bind_err (rename_state P (Str s) (Str (last_segment s))) (\<lambda>P. strip_temps P rest)
      else strip_temps P rest)"
| "strip_temps P (Obj x # rest) = strip_temps P rest"

definition normalize_states :: "'o pystate ap \<Rightarrow> error + 'o pystate ap" where
  "normalize_states P =
     bind_err (apply_renames P (order_renames (new_names P))) (\<lambda>P. strip_temps P (states P))"

text \<open>An automaton whose two names form a cycle: \<open>q1\<close> is initial and becomes \<open>q0\<close>, \<open>q0\<close>
  becomes \<open>q1\<close>.\<close>

definition swap_ops :: "unit pystate builder_op list" where
  "swap_ops =
     [Add_state (Str ''q1'') False, Add_state (Str ''q0'') True,
      Mark_initial_state (Str ''q1''),
      Set_initial_stack_symbol CHR ''Z'',
      Add_transition (Str ''q1'') (Str ''q0'') (Some CHR ''a'') CHR ''Z'' ''Z'']"

definition swap_P :: "unit pystate ap" where
  "swap_P = the_automaton (build AP_init swap_ops)"


section \<open>Notions used to state the properties of the renaming\<close>

text \<open>\<open>renamed f P P'\<close>: \<open>P'\<close> is \<open>P\<close> with every state \<open>q\<close> replaced by \<open>f q\<close>.\<close>

definition rename_entry ::
  "('q \<Rightarrow> 'r) \<Rightarrow> ('q \<times> char option \<times> char) \<times> ('q \<times> string)
     \<Rightarrow> ('r \<times> char option \<times> char) \<times> ('r \<times> string)" where
  "rename_entry f e = (case e of ((q, a, X), (p, s)) \<Rightarrow> ((f q, a, X), (f p, s)))"

definition renamed :: "('q \<Rightarrow> 'q) \<Rightarrow> 'q ap \<Rightarrow> 'q ap \<Rightarrow> bool" where
  "renamed f P P' \<longleftrightarrow>
     set (states P') = f ` set (states P) \<and>
     set (final_states P') = f ` set (final_states P) \<and>
     initial_state P' = map_option f (initial_state P) \<and>
     set (transitions P') = rename_entry f ` set (transitions P) \<and>
     input_alphabet P' = input_alphabet P \<and>
     stack_alphabet P' = stack_alphabet P \<and>
     initial_stack_symbol P' = initial_stack_symbol P"

fun sched_ok :: "('o pystate \<times> string \<times> bool) list \<Rightarrow> bool" where
  "sched_ok [] = True"
| "sched_ok ((old_name, new_name, use_temp) # rest) =
     ((use_temp \<or> old_name = Str new_name \<or> Str new_name \<notin> fst ` set rest) \<and> sched_ok rest)"

definition named_for :: "string \<Rightarrow> string \<Rightarrow> bool" where
  "named_for target m \<longleftrightarrow>
     last_segment m = target \<and> (CHR '':'' \<notin> set m \<or> starts_with ''temp:'' m)"

definition new_name_of :: "'o pystate ap \<Rightarrow> 'o pystate \<Rightarrow> string" where
  "new_name_of P s = (case map_of (new_names P) s of None \<Rightarrow> [] | Some n \<Rightarrow> n)"

definition other_states :: "'q ap \<Rightarrow> 'q list" where
  "other_states P = filter (\<lambda>state. Some state \<noteq> initial_state P) (states P)"


section \<open>Basic facts\<close>

lemma dict_mem_iff: "dict_mem k d \<longleftrightarrow> k \<in> fst ` set d"
  by (simp add: dict_mem_def map_of_eq_None_iff)

lemma dict_set_fresh: "\<not> dict_mem k d \<Longrightarrow> dict_set k v d = d @ [(k, v)]"
  by (induction d) (auto simp: dict_mem_iff)

lemma map_of_dict_set: "map_of (dict_set k v d) = (map_of d)(k \<mapsto> v)"
  by (induction d) (auto simp: fun_eq_iff)

lemma set_set_add [simp]: "set (set_add x xs) = insert x (set xs)"
  by (auto simp: set_add_def)

lemma distinct_set_add: "distinct xs \<Longrightarrow> distinct (set_add x xs)"
  by (auto simp: set_add_def)

lemma bind_err_Inr_iff:
  "bind_err m f = Inr y \<longleftrightarrow> (\<exists>x. m = Inr x \<and> f x = Inr y)"
  by (cases m) (auto simp: bind_err_def)

lemma bind_err_Inr [simp]: "bind_err (Inr x) f = f x"
  by (simp add: bind_err_def)

lemma bind_err_Inl [simp]: "bind_err (Inl e) f = Inl e"
  by (simp add: bind_err_def)

lemma add_state_Inr:
  assumes "add_state C s f = Inr C'"
  shows "s \<notin> set (states C)"
    and "states C' = states C @ [s]"
    and "final_states C' = (if f then set_add s (final_states C) else final_states C)"
    and "transitions C' = transitions C"
    and "initial_state C' = initial_state C"
    and "input_alphabet C' = input_alphabet C"
    and "stack_alphabet C' = stack_alphabet C"
    and "initial_stack_symbol C' = initial_stack_symbol C"
  using assms by (auto simp: add_state_def set_add_def split: if_splits)

lemma add_transition_Inr:
  assumes "add_transition C s t a X w = Inr C'"
  shows "s \<in> set (states C)" and "t \<in> set (states C)"
    and "\<not> dict_mem (s, a, X) (transitions C)"
    and "a \<noteq> None \<Longrightarrow> \<not> dict_mem (s, None, X) (transitions C)"
    and "a = None \<Longrightarrow> c \<in> set (input_alphabet C) \<Longrightarrow> \<not> dict_mem (s, Some c, X) (transitions C)"
    and "transitions C' = transitions C @ [((s, a, X), (t, w))]"
    and "states C' = states C"
    and "final_states C' = final_states C"
    and "initial_state C' = initial_state C"
    and "initial_stack_symbol C' = initial_stack_symbol C"
    and "set (input_alphabet C') = set (input_alphabet C) \<union> set_option a"
  using assms
  by (auto simp: add_transition_def dict_set_fresh list_ex_iff split: if_splits option.splits)

lemma add_transition_succeeds:
  assumes "s \<in> set (states C)" and "t \<in> set (states C)"
    and "\<not> dict_mem (s, a, X) (transitions C)"
    and "a \<noteq> None \<longrightarrow> \<not> dict_mem (s, None, X) (transitions C)"
    and "a = None \<longrightarrow> (\<forall>c \<in> set (input_alphabet C). \<not> dict_mem (s, Some c, X) (transitions C))"
  shows "\<exists>C'. add_transition C s t a X w = Inr C'"
  using assms by (auto simp: add_transition_def list_ex_iff)

lemma same_registry_refl [simp]: "same_registry C C"
  by (simp add: same_registry_def)

lemma same_registry_trans: "same_registry A B \<Longrightarrow> same_registry B C \<Longrightarrow> same_registry A C"
  by (simp add: same_registry_def)

lemma add_transition_same_registry:
  "add_transition C s t a X w = Inr C' \<Longrightarrow> same_registry C C'"
  by (simp add: same_registry_def add_transition_Inr)

lemma add_marked_states_Inr:
  "add_marked_states C qs = Inr C' \<Longrightarrow>
     set (states C') = set (states C) \<union> set qs \<times> {0, 1, 2} \<and>
     set (final_states C') = set (final_states C) \<union> set qs \<times> {2} \<and>
     transitions C' = transitions C \<and> initial_state C' = initial_state C \<and>
     input_alphabet C' = input_alphabet C \<and> stack_alphabet C' = stack_alphabet C \<and>
     initial_stack_symbol C' = initial_stack_symbol C"
proof (induction qs arbitrary: C)
  case Nil
  then show ?case by simp
next
  case (Cons q qs)
  from Cons.prems obtain C1 C2 C3 where
    s: "add_state C (q, 0) False = Inr C1" "add_state C1 (q, 1) False = Inr C2"
       "add_state C2 (q, 2) True = Inr C3" "add_marked_states C3 qs = Inr C'"
    by (auto simp: bind_err_Inr_iff)
  note a1 = add_state_Inr[OF s(1)] and a2 = add_state_Inr[OF s(2)] and a3 = add_state_Inr[OF s(3)]
  from Cons.IH[OF s(4)] show ?case
    by (auto simp add: a1 a2 a3)
qed

lemma rule_i_Inr:
  "rule_i P C ts = Inr C' \<Longrightarrow>
     set (transitions C') = set (transitions C) \<union> rule_i_set P ts \<and> same_registry C C' \<and>
     (distinct (map fst (transitions C)) \<longrightarrow> distinct (map fst (transitions C')))"
proof (induction ts arbitrary: C)
  case Nil
  then show ?case by (simp add: rule_i_set_def)
next
  case (Cons t ts)
  obtain q a X p s where t: "t = ((q, a, X), (p, s))" by (cases t) auto
  show ?case
  proof (cases a)
    case None
    with Cons.prems t have "rule_i P C ts = Inr C'" by simp
    from Cons.IH[OF this] None t show ?thesis by (auto simp: rule_i_set_def)
  next
    case (Some c)
    with Cons.prems t obtain C1 C2 where
      s: "add_transition C (q, 1) (p, final_index P p) (Some c) X s = Inr C1"
         "add_transition C1 (q, 2) (p, final_index P p) (Some c) X s = Inr C2"
         "rule_i P C2 ts = Inr C'"
      by (auto simp: bind_err_Inr_iff)
    note a1 = add_transition_Inr[OF s(1)] and a2 = add_transition_Inr[OF s(2)]
    have reg: "same_registry C C2"
      using add_transition_same_registry[OF s(1)] add_transition_same_registry[OF s(2)]
      by (rule same_registry_trans)
    have set2: "set (transitions C2) = set (transitions C) \<union> rule_i_set P [t]"
      unfolding a2(6) a1(6) using t Some by (auto simp: rule_i_set_def)
    have dist2: "distinct (map fst (transitions C)) \<longrightarrow> distinct (map fst (transitions C2))"
      using a1(3) a2(3) unfolding a2(6) a1(6) by (auto simp: dict_mem_iff a1(6))
    have split: "rule_i_set P (t # ts) = rule_i_set P [t] \<union> rule_i_set P ts"
      by (auto simp: rule_i_set_def)
    from Cons.IH[OF s(3)] set2 dist2 reg show ?thesis
      unfolding split by (auto intro: same_registry_trans)
  qed
qed

lemma rule_ii_Inr:
  "rule_ii P C ts = Inr C' \<Longrightarrow>
     set (transitions C') = set (transitions C) \<union> rule_ii_set P ts \<and> same_registry C C' \<and>
     (distinct (map fst (transitions C)) \<longrightarrow> distinct (map fst (transitions C')))"
proof (induction ts arbitrary: C)
  case Nil
  then show ?case by (simp add: rule_ii_set_def)
next
  case (Cons t ts)
  obtain q a X p s where t: "t = ((q, a, X), (p, s))" by (cases t) auto
  show ?case
  proof (cases a)
    case (Some c)
    with Cons.prems t have "rule_ii P C ts = Inr C'" by simp
    from Cons.IH[OF this] Some t show ?thesis by (auto simp: rule_ii_set_def)
  next
    case None
    with Cons.prems t obtain C1 C2 where
      s: "add_transition C (q, 1) (p, 1) None X s = Inr C1"
         "add_transition C1 (q, 0) (p, final_index P p) None X s = Inr C2"
         "rule_ii P C2 ts = Inr C'"
      by (auto simp: bind_err_Inr_iff)
    note a1 = add_transition_Inr[OF s(1)] and a2 = add_transition_Inr[OF s(2)]
    have reg: "same_registry C C2"
      using add_transition_same_registry[OF s(1)] add_transition_same_registry[OF s(2)]
      by (rule same_registry_trans)
    have set2: "set (transitions C2) = set (transitions C) \<union> rule_ii_set P [t]"
      unfolding a2(6) a1(6) using t None by (auto simp: rule_ii_set_def)
    have dist2: "distinct (map fst (transitions C)) \<longrightarrow> distinct (map fst (transitions C2))"
      using a1(3) a2(3) unfolding a2(6) a1(6) by (auto simp: dict_mem_iff a1(6))
    have split: "rule_ii_set P (t # ts) = rule_ii_set P [t] \<union> rule_ii_set P ts"
      by (auto simp: rule_ii_set_def)
    from Cons.IH[OF s(3)] set2 dist2 reg show ?thesis
      unfolding split by (auto intro: same_registry_trans)
  qed
qed

lemma rule_iii_symbols_Inr:
  "rule_iii_symbols P C q xs = Inr C' \<Longrightarrow>
     set (transitions C') = set (transitions C) \<union> rule_iii_set P [q] xs \<and> same_registry C C' \<and>
     (distinct (map fst (transitions C)) \<longrightarrow> distinct (map fst (transitions C')))"
proof (induction xs arbitrary: C)
  case Nil
  then show ?case by (simp add: rule_iii_set_def)
next
  case (Cons X xs)
  have split: "rule_iii_set P [q] (X # xs) = rule_iii_set P [q] [X] \<union> rule_iii_set P [q] xs"
    by (auto simp: rule_iii_set_def)
  show ?case
  proof (cases "dict_mem (q, None, X) (transitions P)")
    case True
    with Cons.prems have "rule_iii_symbols P C q xs = Inr C'" by simp
    moreover from True have "rule_iii_set P [q] [X] = {}" by (auto simp: rule_iii_set_def)
    ultimately show ?thesis using Cons.IH unfolding split by simp
  next
    case False
    with Cons.prems obtain C1 where
      s: "add_transition C (q, 0) (q, 2) None X [X] = Inr C1"
         "rule_iii_symbols P C1 q xs = Inr C'"
      by (auto simp: bind_err_Inr_iff)
    note a1 = add_transition_Inr[OF s(1)]
    have set1: "set (transitions C1) = set (transitions C) \<union> rule_iii_set P [q] [X]"
      unfolding a1(6) using False by (auto simp: rule_iii_set_def)
    have dist1: "distinct (map fst (transitions C)) \<longrightarrow> distinct (map fst (transitions C1))"
      using a1(3) unfolding a1(6) by (auto simp: dict_mem_iff)
    from Cons.IH[OF s(2)] set1 dist1 add_transition_same_registry[OF s(1)] show ?thesis
      unfolding split by (auto intro: same_registry_trans)
  qed
qed

lemma rule_iii_Inr:
  "rule_iii P C qs = Inr C' \<Longrightarrow>
     set (transitions C') = set (transitions C) \<union> rule_iii_set P qs (stack_alphabet P) \<and>
     same_registry C C' \<and>
     (distinct (map fst (transitions C)) \<longrightarrow> distinct (map fst (transitions C')))"
proof (induction qs arbitrary: C)
  case Nil
  then show ?case by (simp add: rule_iii_set_def)
next
  case (Cons q qs)
  from Cons.prems obtain C1 where
    s: "rule_iii_symbols P C q (stack_alphabet P) = Inr C1" "rule_iii P C1 qs = Inr C'"
    by (auto simp: bind_err_Inr_iff)
  have split: "rule_iii_set P (q # qs) (stack_alphabet P) =
      rule_iii_set P [q] (stack_alphabet P) \<union> rule_iii_set P qs (stack_alphabet P)"
    by (auto simp: rule_iii_set_def)
  from Cons.IH[OF s(2)] rule_iii_symbols_Inr[OF s(1)] show ?case
    unfolding split by (auto intro: same_registry_trans)
qed

lemma crear_automata_complemento_Inr:
  assumes "crear_automata_complemento P = Inr C"
  shows "set (states C) = set (states P) \<times> {0, 1, 2}"
    and "set (final_states C) = set (states P) \<times> {2}"
    and "\<exists>q0. initial_state P = Some q0 \<and> q0 \<in> set (states P) \<and>
              initial_state C = Some (q0, final_index P q0)"
    and "initial_stack_symbol C = initial_stack_symbol P"
    and "set (transitions C) =
           rule_i_set P (transitions P) \<union> rule_ii_set P (transitions P) \<union>
           rule_iii_set P (states P) (stack_alphabet P)"
    and "distinct (map fst (transitions C))"
proof -
  from assms obtain C1 C2 C3 C4 where
    s: "add_marked_states AP_init (states P) = Inr C1"
       "mark_complement_initial P C1 = Inr C2"
       "rule_i P (set_initial_stack_symbol
                    (C2\<lparr>input_alphabet := input_alphabet P, stack_alphabet := stack_alphabet P\<rparr>)
                    (initial_stack_symbol P)) (transitions P) = Inr C3"
       "rule_ii P C3 (transitions P) = Inr C4"
       "rule_iii P C4 (states P) = Inr C"
    by (auto simp: crear_automata_complemento_def bind_err_Inr_iff Let_def)
  let ?C2' = "set_initial_stack_symbol
                (C2\<lparr>input_alphabet := input_alphabet P, stack_alphabet := stack_alphabet P\<rparr>)
                (initial_stack_symbol P)"
  have c1: "set (states C1) = set (states P) \<times> {0, 1, 2}"
      "set (final_states C1) = set (states P) \<times> {2}" "transitions C1 = []"
    using add_marked_states_Inr[OF s(1)] by (simp_all add: AP_init_def)
  from s(2) obtain q0 where q0: "initial_state P = Some q0"
      "mark_initial_state C1 (q0, final_index P q0) = Inr C2"
    by (auto simp: mark_complement_initial_def final_index_def split: option.splits if_splits)
  from q0(2) have c2: "C2 = C1\<lparr>initial_state := Some (q0, final_index P q0)\<rparr>"
      "(q0, final_index P q0) \<in> set (states C1)"
    by (auto simp: mark_initial_state_def split: if_splits)
  have c2': "states ?C2' = states C1" "final_states ?C2' = final_states C1"
      "initial_state ?C2' = Some (q0, final_index P q0)" "transitions ?C2' = []"
      "initial_stack_symbol ?C2' = initial_stack_symbol P"
    using c2(1) c1(3) by (simp_all add: set_initial_stack_symbol_def)
  note r1 = rule_i_Inr[OF s(3)] and r2 = rule_ii_Inr[OF s(4)] and r3 = rule_iii_Inr[OF s(5)]
  have reg: "same_registry ?C2' C"
    using r1 r2 r3 by (blast intro: same_registry_trans)
  show "set (states C) = set (states P) \<times> {0, 1, 2}"
    using reg c2' c1 by (simp add: same_registry_def)
  show "set (final_states C) = set (states P) \<times> {2}"
    using reg c2' c1 by (simp add: same_registry_def)
  show "\<exists>q0. initial_state P = Some q0 \<and> q0 \<in> set (states P) \<and>
              initial_state C = Some (q0, final_index P q0)"
    using reg c2' c2(2) c1 q0(1) by (auto simp: same_registry_def)
  show "initial_stack_symbol C = initial_stack_symbol P"
    using reg c2' by (simp add: same_registry_def)
  show "set (transitions C) =
           rule_i_set P (transitions P) \<union> rule_ii_set P (transitions P) \<union>
           rule_iii_set P (states P) (stack_alphabet P)"
    using r1 r2 r3 c2'(4) by simp
  show "distinct (map fst (transitions C))"
    using r1 r2 r3 c2'(4) by simp
qed

lemma accepts_loop_run:
  "accepts_loop P m f q inp st =
     (\<exists>n\<le>f. \<exists>c. run P n (q, inp, st) = Some c \<and> accepting_configuration P m c)"
proof (induction f arbitrary: q inp st)
  case 0
  then show ?case by (simp add: accepting_configuration_def)
next
  case (Suc f)
  show ?case
  proof (cases "acceptance_check P m q inp st")
    case True
    then have "run P 0 (q, inp, st) = Some (q, inp, st) \<and> accepting_configuration P m (q, inp, st)"
      by (simp add: accepting_configuration_def)
    then have "\<exists>n\<le>Suc f. \<exists>c. run P n (q, inp, st) = Some c \<and> accepting_configuration P m c"
      by blast
    with True show ?thesis by simp
  next
    case False
    show ?thesis
    proof (cases "step P q inp st")
      case None
      have "\<not> (\<exists>n\<le>Suc f. \<exists>c. run P n (q, inp, st) = Some c \<and> accepting_configuration P m c)"
      proof
        assume "\<exists>n\<le>Suc f. \<exists>c. run P n (q, inp, st) = Some c \<and> accepting_configuration P m c"
        then obtain n c where n: "run P n (q, inp, st) = Some c" "accepting_configuration P m c"
          by blast
        show False using n None False by (cases n) (auto simp: accepting_configuration_def)
      qed
      with None False show ?thesis by simp
    next
      case (Some c')
      obtain q' inp' st' where c': "c' = (q', inp', st')" by (cases c') auto
      have "(\<exists>n\<le>Suc f. \<exists>c. run P n (q, inp, st) = Some c \<and> accepting_configuration P m c)
            = (\<exists>n\<le>f. \<exists>c. run P n c' = Some c \<and> accepting_configuration P m c)"
      proof
        assume "\<exists>n\<le>Suc f. \<exists>c. run P n (q, inp, st) = Some c \<and> accepting_configuration P m c"
        then obtain n c where n: "n \<le> Suc f" "run P n (q, inp, st) = Some c"
            "accepting_configuration P m c"
          by blast
        show "\<exists>n\<le>f. \<exists>c. run P n c' = Some c \<and> accepting_configuration P m c"
        proof (cases n)
          case 0
          with n False show ?thesis by (auto simp: accepting_configuration_def)
        next
          case (Suc k)
          with n Some have "k \<le> f" "run P k c' = Some c" by simp_all
          with n(3) show ?thesis by blast
        qed
      next
        assume "\<exists>n\<le>f. \<exists>c. run P n c' = Some c \<and> accepting_configuration P m c"
        then obtain n c where n: "n \<le> f" "run P n c' = Some c" "accepting_configuration P m c"
          by blast
        then have "Suc n \<le> Suc f" "run P (Suc n) (q, inp, st) = Some c"
          using Some by simp_all
        with n(3) show "\<exists>n\<le>Suc f. \<exists>c. run P n (q, inp, st) = Some c \<and> accepting_configuration P m c"
          by blast
      qed
      with Some False c' Suc.IH[of q' inp' st'] show ?thesis by simp
    qed
  qed
qed

lemma unknown_mode_check:
  "mode \<noteq> ''final_state'' \<Longrightarrow> mode \<noteq> ''empty_stack'' \<Longrightarrow>
   \<not> acceptance_check P mode q inp st"
  by (simp add: acceptance_check_def)

lemma unknown_mode_loop:
  "mode \<noteq> ''final_state'' \<Longrightarrow> mode \<noteq> ''empty_stack'' \<Longrightarrow>
   \<not> accepts_loop P mode f q inp st"
  by (induction f arbitrary: q inp st) (auto simp: unknown_mode_check split: option.splits)

section \<open>The complement constructor succeeds\<close>

lemma deterministic_tableD:
  "deterministic_table P \<Longrightarrow> dict_mem (q, None, X) (transitions P) \<Longrightarrow>
   \<not> dict_mem (q, Some c, X) (transitions P)"
  by (fastforce simp: deterministic_table_def dict_mem_iff list_all_iff)

lemma deterministic_tableI:
  "(\<And>q X c. dict_mem (q, None, X) (transitions P) \<Longrightarrow>
      \<not> dict_mem (q, Some c, X) (transitions P)) \<Longrightarrow> deterministic_table P"
proof -
  assume h: "\<And>q X c. dict_mem (q, None, X) (transitions P) \<Longrightarrow>
      \<not> dict_mem (q, Some c, X) (transitions P)"
  have "a' = None"
    if "((q, None, X), v) \<in> set (transitions P)" "((q, a', X), v') \<in> set (transitions P)"
    for q X v a' v'
  proof (cases a')
    case None
    then show ?thesis .
  next
    case (Some c)
    from that(1) have "dict_mem (q, None, X) (transitions P)"
      by (force simp: dict_mem_iff)
    moreover from that(2) Some have "dict_mem (q, Some c, X) (transitions P)"
      by (force simp: dict_mem_iff)
    ultimately show ?thesis using h by blast
  qed
  then show ?thesis
    unfolding deterministic_table_def list_all_iff by fastforce
qed

lemma add_state_succeeds: "s \<notin> set (states C) \<Longrightarrow> \<exists>C'. add_state C s f = Inr C'"
  by (simp add: add_state_def)

lemma add_marked_states_succeeds:
  "distinct qs \<Longrightarrow> (\<forall>q\<in>set qs. \<forall>m. (q, m) \<notin> set (states C)) \<Longrightarrow>
   \<exists>C'. add_marked_states C qs = Inr C'"
proof (induction qs arbitrary: C)
  case Nil
  then show ?case by simp
next
  case (Cons q qs)
  from Cons.prems obtain C1 where s1: "add_state C (q, 0) False = Inr C1"
    using add_state_succeeds[of "(q, 0)" C False] by auto
  note a1 = add_state_Inr[OF s1]
  from Cons.prems obtain C2 where s2: "add_state C1 (q, 1) False = Inr C2"
    using add_state_succeeds[of "(q, 1)" C1 False] by (auto simp: a1)
  note a2 = add_state_Inr[OF s2]
  from Cons.prems obtain C3 where s3: "add_state C2 (q, 2) True = Inr C3"
    using add_state_succeeds[of "(q, 2)" C2 True] by (auto simp: a1 a2)
  note a3 = add_state_Inr[OF s3]
  have "\<forall>q'\<in>set qs. \<forall>m. (q', m) \<notin> set (states C3)"
    using Cons.prems by (auto simp: a1 a2 a3)
  with Cons.IH[of C3] Cons.prems obtain C' where "add_marked_states C3 qs = Inr C'"
    by auto
  with s1 s2 s3 show ?case by simp
qed

lemma rule_i_succeeds:
  assumes "distinct (map fst ts)"
    and "\<forall>((q, a, X), (p, s))\<in>set ts. \<forall>m\<in>{0, 1, 2}. (q, m) \<in> set (states C) \<and> (p, m) \<in> set (states C)"
    and "\<forall>q a X m. (q, a, X) \<in> fst ` set ts \<longrightarrow> ((q, m), a, X) \<notin> fst ` set (transitions C)"
    and "\<forall>k\<in>fst ` set (transitions C). fst (snd k) \<noteq> None"
  shows "\<exists>C'. rule_i P C ts = Inr C'"
  using assms
proof (induction ts arbitrary: C)
  case Nil
  then show ?case by simp
next
  case (Cons t ts)
  obtain q a X p s where t: "t = ((q, a, X), (p, s))" by (cases t) auto
  show ?case
  proof (cases a)
    case None
    have "\<exists>C'. rule_i P C ts = Inr C'"
      using Cons.prems by (intro Cons.IH) auto
    with t None show ?thesis by simp
  next
    case (Some c)
    have st: "(q, 0) \<in> set (states C)" "(q, 1) \<in> set (states C)" "(q, 2) \<in> set (states C)"
        "(p, 1) \<in> set (states C)" "(p, final_index P p) \<in> set (states C)"
      using Cons.prems(2) t by (auto simp: final_index_def)
    have k: "\<And>m. ((q, m), Some c, X) \<notin> fst ` set (transitions C)"
      using Cons.prems(3) t Some by auto
    have noeps: "\<And>s X v. ((s, None, X), v) \<notin> set (transitions C)"
      using Cons.prems(4) by force
    have "\<exists>C1. add_transition C (q, 1) (p, final_index P p) (Some c) X s = Inr C1"
      using st k noeps by (intro add_transition_succeeds) (auto simp: dict_mem_iff)
    then obtain C1 where s1: "add_transition C (q, 1) (p, final_index P p) (Some c) X s = Inr C1" ..
    note a1 = add_transition_Inr[OF s1]
    have "\<exists>C2. add_transition C1 (q, 2) (p, final_index P p) (Some c) X s = Inr C2"
      using st k noeps by (intro add_transition_succeeds) (auto simp: dict_mem_iff a1)
    then obtain C2 where s2: "add_transition C1 (q, 2) (p, final_index P p) (Some c) X s = Inr C2" ..
    note a2 = add_transition_Inr[OF s2]
    have keys2: "fst ` set (transitions C2) =
        fst ` set (transitions C) \<union> {((q, 1), Some c, X), ((q, 2), Some c, X)}"
      by (auto simp: a1 a2)
    have notin: "(q, Some c, X) \<notin> fst ` set ts"
      using Cons.prems(1) t Some by (auto simp: image_iff)
    have "\<exists>C'. rule_i P C2 ts = Inr C'"
    proof (intro Cons.IH)
      show "distinct (map fst ts)" using Cons.prems(1) by simp
      show "\<forall>((q, a, X), (p, s))\<in>set ts. \<forall>m\<in>{0, 1, 2}. (q, m) \<in> set (states C2) \<and> (p, m) \<in> set (states C2)"
        using Cons.prems(2) by (auto simp: a1 a2)
      show "\<forall>q a X m. (q, a, X) \<in> fst ` set ts \<longrightarrow> ((q, m), a, X) \<notin> fst ` set (transitions C2)"
        unfolding keys2 using Cons.prems(3) notin by auto
      show "\<forall>k\<in>fst ` set (transitions C2). fst (snd k) \<noteq> None"
        unfolding keys2 using Cons.prems(4) by auto
    qed
    with s1 s2 t Some show ?thesis by simp
  qed
qed

lemma rule_ii_succeeds:
  assumes "distinct (map fst ts)"
    and "\<forall>((q, a, X), (p, s))\<in>set ts. \<forall>m\<in>{0, 1, 2}. (q, m) \<in> set (states C) \<and> (p, m) \<in> set (states C)"
    and "\<forall>q X m a. (q, None, X) \<in> fst ` set ts \<longrightarrow> ((q, m), a, X) \<notin> fst ` set (transitions C)"
  shows "\<exists>C'. rule_ii P C ts = Inr C'"
  using assms
proof (induction ts arbitrary: C)
  case Nil
  then show ?case by simp
next
  case (Cons t ts)
  obtain q a X p s where t: "t = ((q, a, X), (p, s))" by (cases t) auto
  show ?case
  proof (cases a)
    case (Some c)
    have "\<exists>C'. rule_ii P C ts = Inr C'"
      using Cons.prems by (intro Cons.IH) auto
    with t Some show ?thesis by simp
  next
    case None
    have st: "(q, 0) \<in> set (states C)" "(q, 1) \<in> set (states C)" "(q, 2) \<in> set (states C)"
        "(p, 1) \<in> set (states C)" "(p, final_index P p) \<in> set (states C)"
      using Cons.prems(2) t by (auto simp: final_index_def)
    have k: "\<And>m a. ((q, m), a, X) \<notin> fst ` set (transitions C)"
      using Cons.prems(3) t None by auto
    have "\<exists>C1. add_transition C (q, 1) (p, 1) None X s = Inr C1"
      using st k by (intro add_transition_succeeds) (auto simp: dict_mem_iff)
    then obtain C1 where s1: "add_transition C (q, 1) (p, 1) None X s = Inr C1" ..
    note a1 = add_transition_Inr[OF s1]
    have "\<exists>C2. add_transition C1 (q, 0) (p, final_index P p) None X s = Inr C2"
      using st k by (intro add_transition_succeeds) (auto simp: dict_mem_iff a1)
    then obtain C2 where s2: "add_transition C1 (q, 0) (p, final_index P p) None X s = Inr C2" ..
    note a2 = add_transition_Inr[OF s2]
    have keys2: "fst ` set (transitions C2) =
        fst ` set (transitions C) \<union> {((q, 1), None, X), ((q, 0), None, X)}"
      by (auto simp: a1 a2)
    have notin: "(q, None, X) \<notin> fst ` set ts"
      using Cons.prems(1) t None by (auto simp: image_iff)
    have "\<exists>C'. rule_ii P C2 ts = Inr C'"
    proof (intro Cons.IH)
      show "distinct (map fst ts)" using Cons.prems(1) by simp
      show "\<forall>((q, a, X), (p, s))\<in>set ts. \<forall>m\<in>{0, 1, 2}. (q, m) \<in> set (states C2) \<and> (p, m) \<in> set (states C2)"
        using Cons.prems(2) by (auto simp: a1 a2)
      show "\<forall>q X m a. (q, None, X) \<in> fst ` set ts \<longrightarrow> ((q, m), a, X) \<notin> fst ` set (transitions C2)"
        unfolding keys2 using Cons.prems(3) notin by auto
    qed
    with s1 s2 t None show ?thesis by simp
  qed
qed

lemma rule_iii_symbols_succeeds:
  assumes "distinct xs"
    and "(q, 0) \<in> set (states C)" and "(q, 2) \<in> set (states C)"
    and "\<forall>X\<in>set xs. \<not> dict_mem (q, None, X) (transitions P) \<longrightarrow>
           (\<forall>a. ((q, 0), a, X) \<notin> fst ` set (transitions C))"
  shows "\<exists>C'. rule_iii_symbols P C q xs = Inr C'"
  using assms
proof (induction xs arbitrary: C)
  case Nil
  then show ?case by simp
next
  case (Cons X xs)
  show ?case
  proof (cases "dict_mem (q, None, X) (transitions P)")
    case True
    have "\<exists>C'. rule_iii_symbols P C q xs = Inr C'"
      using Cons.prems by (intro Cons.IH) auto
    with True show ?thesis by simp
  next
    case False
    have k: "\<And>a. ((q, 0), a, X) \<notin> fst ` set (transitions C)"
      using Cons.prems(4) False by auto
    have "\<exists>C1. add_transition C (q, 0) (q, 2) None X [X] = Inr C1"
      using Cons.prems(2,3) k by (intro add_transition_succeeds) (auto simp: dict_mem_iff)
    then obtain C1 where s1: "add_transition C (q, 0) (q, 2) None X [X] = Inr C1" ..
    note a1 = add_transition_Inr[OF s1]
    have "\<exists>C'. rule_iii_symbols P C1 q xs = Inr C'"
    proof (intro Cons.IH)
      show "distinct xs" using Cons.prems(1) by simp
      show "(q, 0) \<in> set (states C1)" "(q, 2) \<in> set (states C1)"
        using Cons.prems(2,3) by (simp_all add: a1)
      show "\<forall>X\<in>set xs. \<not> dict_mem (q, None, X) (transitions P) \<longrightarrow>
           (\<forall>a. ((q, 0), a, X) \<notin> fst ` set (transitions C1))"
        using Cons.prems(1,4) by (auto simp: a1)
    qed
    with s1 False show ?thesis by simp
  qed
qed

lemma rule_iii_succeeds:
  assumes "distinct qs" and "distinct (stack_alphabet P)"
    and "\<forall>q\<in>set qs. (q, 0) \<in> set (states C) \<and> (q, 2) \<in> set (states C)"
    and "\<forall>q\<in>set qs. \<forall>X\<in>set (stack_alphabet P). \<not> dict_mem (q, None, X) (transitions P) \<longrightarrow>
           (\<forall>a. ((q, 0), a, X) \<notin> fst ` set (transitions C))"
  shows "\<exists>C'. rule_iii P C qs = Inr C'"
  using assms
proof (induction qs arbitrary: C)
  case Nil
  then show ?case by simp
next
  case (Cons q qs)
  have "\<exists>C1. rule_iii_symbols P C q (stack_alphabet P) = Inr C1"
    using Cons.prems by (intro rule_iii_symbols_succeeds) auto
  then obtain C1 where s1: "rule_iii_symbols P C q (stack_alphabet P) = Inr C1" ..
  note r = rule_iii_symbols_Inr[OF s1]
  from r have set1: "set (transitions C1) =
      set (transitions C) \<union> rule_iii_set P [q] (stack_alphabet P)" by simp
  have "\<exists>C'. rule_iii P C1 qs = Inr C'"
  proof (intro Cons.IH)
    show "distinct qs" using Cons.prems(1) by simp
    show "distinct (stack_alphabet P)" by fact
    show "\<forall>q\<in>set qs. (q, 0) \<in> set (states C1) \<and> (q, 2) \<in> set (states C1)"
      using Cons.prems(3) r by (simp add: same_registry_def)
    show "\<forall>q\<in>set qs. \<forall>X\<in>set (stack_alphabet P). \<not> dict_mem (q, None, X) (transitions P) \<longrightarrow>
           (\<forall>a. ((q, 0), a, X) \<notin> fst ` set (transitions C1))"
      unfolding set1 using Cons.prems(1,4) by (fastforce simp: rule_iii_set_def)
  qed
  with s1 show ?case by simp
qed

lemma crear_automata_complemento_succeeds:
  assumes df: "duplicate_free P" and er: "endpoints_registered P"
    and det: "deterministic_table P"
    and init: "initial_state P = Some q0" "q0 \<in> set (states P)"
  shows "\<exists>C. crear_automata_complemento P = Inr C"
proof -
  have "\<exists>C1. add_marked_states AP_init (states P) = Inr C1"
    using df by (intro add_marked_states_succeeds) (auto simp: duplicate_free_def AP_init_def)
  then obtain C1 :: "('a \<times> nat) ap" where s1: "add_marked_states AP_init (states P) = Inr C1" ..
  have c1: "set (states C1) = set (states P) \<times> {0, 1, 2}" "transitions C1 = []"
    using add_marked_states_Inr[OF s1] by (simp_all add: AP_init_def)
  define C2 where "C2 = C1\<lparr>initial_state := Some (q0, final_index P q0)\<rparr>"
  have s2: "mark_complement_initial P C1 = Inr C2"
    using init c1 by (auto simp: mark_complement_initial_def mark_initial_state_def
        final_index_def C2_def)
  define C2' where "C2' = set_initial_stack_symbol
      (C2\<lparr>input_alphabet := input_alphabet P, stack_alphabet := stack_alphabet P\<rparr>)
      (initial_stack_symbol P)"
  have c2: "set (states C2') = set (states P) \<times> {0, 1, 2}" "transitions C2' = []"
    using c1 by (simp_all add: C2'_def C2_def set_initial_stack_symbol_def)
  have ends: "\<And>q a X p s. ((q, a, X), (p, s)) \<in> set (transitions P) \<Longrightarrow>
      q \<in> set (states P) \<and> p \<in> set (states P)"
    using er by (auto simp: endpoints_registered_def list_all_iff)
  have "\<exists>C3. rule_i P C2' (transitions P) = Inr C3"
    using df ends by (intro rule_i_succeeds) (auto simp: duplicate_free_def c2)
  then obtain C3 where s3: "rule_i P C2' (transitions P) = Inr C3" ..
  note r3 = rule_i_Inr[OF s3]
  have c3: "set (states C3) = set (states P) \<times> {0, 1, 2}"
      "set (transitions C3) = rule_i_set P (transitions P)"
    using r3 c2 by (simp_all add: same_registry_def)
  have "\<exists>C4. rule_ii P C3 (transitions P) = Inr C4"
  proof (intro rule_ii_succeeds)
    show "distinct (map fst (transitions P))" using df by (simp add: duplicate_free_def)
    show "\<forall>((q, a, X), p, s)\<in>set (transitions P).
       \<forall>m\<in>{0, 1, 2}. (q, m) \<in> set (states C3) \<and> (p, m) \<in> set (states C3)"
      using ends by (auto simp: c3)
    show "\<forall>q X m a. (q, None, X) \<in> fst ` set (transitions P) \<longrightarrow>
       ((q, m), a, X) \<notin> fst ` set (transitions C3)"
    proof (intro allI impI notI)
      fix q X m a
      assume e: "(q, None, X) \<in> fst ` set (transitions P)"
        and k: "((q, m), a, X) \<in> fst ` set (transitions C3)"
      from k obtain c where "a = Some c" "(q, Some c, X) \<in> fst ` set (transitions P)"
        unfolding c3 by (force simp: rule_i_set_def)
      with e deterministic_tableD[OF det, of q X c] show False
        by (simp add: dict_mem_iff)
    qed
  qed
  then obtain C4 where s4: "rule_ii P C3 (transitions P) = Inr C4" ..
  note r4 = rule_ii_Inr[OF s4]
  have c4: "set (states C4) = set (states P) \<times> {0, 1, 2}"
      "set (transitions C4) = rule_i_set P (transitions P) \<union> rule_ii_set P (transitions P)"
    using r4 c3 by (simp_all add: same_registry_def)
  have "\<exists>C. rule_iii P C4 (states P) = Inr C"
  proof (intro rule_iii_succeeds)
    show "distinct (states P)" "distinct (stack_alphabet P)"
      using df by (simp_all add: duplicate_free_def)
    show "\<forall>q\<in>set (states P). (q, 0) \<in> set (states C4) \<and> (q, 2) \<in> set (states C4)"
      by (simp add: c4)
    show "\<forall>q\<in>set (states P). \<forall>X\<in>set (stack_alphabet P).
       \<not> dict_mem (q, None, X) (transitions P) \<longrightarrow>
       (\<forall>a. ((q, 0), a, X) \<notin> fst ` set (transitions C4))"
      unfolding c4 by (force simp: rule_i_set_def rule_ii_set_def dict_mem_iff)
  qed
  then obtain C where s5: "rule_iii P C4 (states P) = Inr C" ..
  show ?thesis
    using s1 s2 s3 s4 s5
    by (simp add: crear_automata_complemento_def Let_def C2'_def)
qed

lemma complement_deterministic:
  assumes "crear_automata_complemento P = Inr C" and det: "deterministic_table P"
  shows "deterministic_table C"
proof (rule deterministic_tableI)
  fix s X c
  assume e: "dict_mem (s, None, X) (transitions C)"
  note tr = crear_automata_complemento_Inr(5)[OF assms(1)]
  show "\<not> dict_mem (s, Some c, X) (transitions C)"
  proof
    assume y: "dict_mem (s, Some c, X) (transitions C)"
    from y obtain q m where s: "s = (q, m)" "m = 1 \<or> m = 2"
        "(q, Some c, X) \<in> fst ` set (transitions P)"
      unfolding dict_mem_iff tr by (force simp: rule_i_set_def rule_ii_set_def rule_iii_set_def)
    from e s(1,2) have "(q, None, X) \<in> fst ` set (transitions P)"
      unfolding dict_mem_iff tr by (force simp: rule_i_set_def rule_ii_set_def rule_iii_set_def)
    with s(3) deterministic_tableD[OF det, of q X c] show False
      by (simp add: dict_mem_iff)
  qed
qed

lemma is_deterministic_if_table: "deterministic_table P \<Longrightarrow> is_deterministic P"
  unfolding is_deterministic_def list_all_iff
  by (auto dest: deterministic_tableD simp: dict_mem_iff) (metis deterministic_tableD dict_mem_iff fst_conv image_eqI)

section \<open>The complement simulates its source\<close>

lemma get_transition_Some_iff:
  "distinct (map fst (transitions P)) \<Longrightarrow>
   get_transition P q a X = Some v \<longleftrightarrow> ((q, a, X), v) \<in> set (transitions P)"
  by (simp add: get_transition_def)

lemma get_transition_None_iff:
  "get_transition P q a X = None \<longleftrightarrow> \<not> dict_mem (q, a, X) (transitions P)"
  unfolding get_transition_def dict_mem_def by blast

lemma hC: "complement_of P C \<Longrightarrow> crear_automata_complemento P = Inr C"
  by (simp add: complement_of_def)

lemma dP: "complement_of P C \<Longrightarrow> distinct (map fst (transitions P))"
  by (simp add: complement_of_def)

lemma C_trans: "complement_of P C \<Longrightarrow> set (transitions C) =
   rule_i_set P (transitions P) \<union> rule_ii_set P (transitions P) \<union>
   rule_iii_set P (states P) (stack_alphabet P)"
  by (rule crear_automata_complemento_Inr(5)[OF hC])

lemma C_dist: "complement_of P C \<Longrightarrow> distinct (map fst (transitions C))"
  by (rule crear_automata_complemento_Inr(6)[OF hC])

lemma C_Some_iff: "complement_of P C \<Longrightarrow> get_transition C s a X = Some v \<longleftrightarrow> ((s, a, X), v) \<in> set (transitions C)"
  by (rule get_transition_Some_iff[OF C_dist])

lemma P_Some_iff: "complement_of P C \<Longrightarrow> get_transition P q a X = Some v \<longleftrightarrow> ((q, a, X), v) \<in> set (transitions P)"
  by (rule get_transition_Some_iff[OF dP])

lemma C_symbol_12:
  assumes co: "complement_of P C" and "m = 1 \<or> m = 2"
  shows "get_transition C (q, m) (Some c) X =
     map_option (\<lambda>(p, s). ((p, final_index P p), s)) (get_transition P q (Some c) X)"
proof (cases "get_transition P q (Some c) X")
  case None
  have "get_transition C (q, m) (Some c) X = None"
  proof (rule ccontr)
    assume "get_transition C (q, m) (Some c) X \<noteq> None"
    then obtain v where "get_transition C (q, m) (Some c) X = Some v" by auto
    then have "(((q, m), Some c, X), v) \<in> set (transitions C)" by (simp add: C_Some_iff[OF co])
    then obtain p s where "((q, Some c, X), (p, s)) \<in> set (transitions P)"
      unfolding C_trans[OF co] by (auto simp: rule_i_set_def rule_ii_set_def rule_iii_set_def)
    with None show False by (simp add: P_Some_iff[OF co, symmetric])
  qed
  with None show ?thesis by simp
next
  case (Some v)
  obtain p s where v: "v = (p, s)" by (cases v) auto
  from Some v have "((q, Some c, X), (p, s)) \<in> set (transitions P)" by (simp add: P_Some_iff[OF co])
  with assms have "(((q, m), Some c, X), ((p, final_index P p), s)) \<in> set (transitions C)"
    unfolding C_trans[OF co] by (auto simp: rule_i_set_def)
  then show ?thesis using Some v by (simp add: C_Some_iff[OF co])
qed

lemma C_symbol_0:
  assumes co: "complement_of P C"
  shows "get_transition C (q, 0) (Some c) X = None"
proof (rule ccontr)
  assume "get_transition C (q, 0) (Some c) X \<noteq> None"
  then obtain v where "get_transition C (q, 0) (Some c) X = Some v" by auto
  then have "(((q, 0), Some c, X), v) \<in> set (transitions C)" by (simp add: C_Some_iff[OF co])
  then show False
    unfolding C_trans[OF co] by (auto simp: rule_i_set_def rule_ii_set_def rule_iii_set_def)
qed

lemma C_lambda_1:
  assumes co: "complement_of P C"
  shows "get_transition C (q, 1) None X =
     map_option (\<lambda>(p, s). ((p, 1), s)) (get_transition P q None X)"
proof (cases "get_transition P q None X")
  case None
  have "get_transition C (q, 1) None X = None"
  proof (rule ccontr)
    assume "get_transition C (q, 1) None X \<noteq> None"
    then obtain v where "get_transition C (q, 1) None X = Some v" by auto
    then have "(((q, 1), None, X), v) \<in> set (transitions C)" by (simp add: C_Some_iff[OF co])
    then obtain p s where "((q, None, X), (p, s)) \<in> set (transitions P)"
      unfolding C_trans[OF co] by (auto simp: rule_i_set_def rule_ii_set_def rule_iii_set_def)
    with None show False by (simp add: P_Some_iff[OF co, symmetric])
  qed
  with None show ?thesis by simp
next
  case (Some v)
  obtain p s where v: "v = (p, s)" by (cases v) auto
  from Some v have "((q, None, X), (p, s)) \<in> set (transitions P)" by (simp add: P_Some_iff[OF co])
  then have "(((q, 1), None, X), ((p, 1), s)) \<in> set (transitions C)"
    unfolding C_trans[OF co] by (auto simp: rule_ii_set_def)
  then show ?thesis using Some v by (simp add: C_Some_iff[OF co])
qed

lemma C_lambda_0_Some:
  assumes co: "complement_of P C" and "get_transition P q None X = Some (p, s)"
  shows "get_transition C (q, 0) None X = Some ((p, final_index P p), s)"
proof -
  from assms have "((q, None, X), (p, s)) \<in> set (transitions P)" by (simp add: P_Some_iff[OF co])
  then have "(((q, 0), None, X), ((p, final_index P p), s)) \<in> set (transitions C)"
    unfolding C_trans[OF co] by (auto simp: rule_ii_set_def)
  then show ?thesis by (simp add: C_Some_iff[OF co])
qed

lemma C_lambda_0_None:
  assumes co: "complement_of P C" and "get_transition P q None X = None"
    and "q \<in> set (states P)" and "X \<in> set (stack_alphabet P)"
  shows "get_transition C (q, 0) None X = Some ((q, 2), [X])"
proof -
  from assms have "(((q, 0), None, X), ((q, 2), [X])) \<in> set (transitions C)"
    unfolding C_trans[OF co] by (auto simp: rule_iii_set_def get_transition_None_iff)
  then show ?thesis by (simp add: C_Some_iff[OF co])
qed

lemma C_final: "complement_of P C \<Longrightarrow> (q, m) \<in> set (final_states C) \<longleftrightarrow> q \<in> set (states P) \<and> m = 2"
  using crear_automata_complemento_Inr(2)[OF hC] by auto

lemma step_snoc:
  "step A q inp (rest @ [X]) =
     (case inp of
        [] \<Rightarrow> (case get_transition A q None X of
                 Some (p, s) \<Rightarrow> Some (p, inp, rest @ rev s) | None \<Rightarrow> None)
      | a # r \<Rightarrow>
         (case get_transition A q (Some a) X of
            Some (p, s) \<Rightarrow> Some (p, r, rest @ rev s)
          | None \<Rightarrow> (case get_transition A q None X of
                 Some (p, s) \<Rightarrow> Some (p, inp, rest @ rev s) | None \<Rightarrow> None)))"
  by (simp add: step_def step_lambda_def split: list.splits option.splits)

lemma step_nonempty: "step A q inp st = Some c \<Longrightarrow> \<exists>rest X. st = rest @ [X]"
  by (cases st rule: rev_cases) (auto simp: step_def)

lemma get_transition_mem:
  "get_transition A q a X = Some (p, s) \<Longrightarrow> ((q, a, X), (p, s)) \<in> set (transitions A)"
  by (simp add: get_transition_def map_of_SomeD)

lemma step_config_ok:
  assumes er: "endpoints_registered P" and pr: "symbols_registered P"
    and s: "step P q inp st = Some (q', inp', st')"
    and st: "set st \<subseteq> set (stack_alphabet P)"
  shows "q' \<in> set (states P) \<and> set st' \<subseteq> set (stack_alphabet P)"
proof -
  from step_nonempty[OF s] obtain rest X where r: "st = rest @ [X]" by blast
  from s r obtain a s' where g: "get_transition P q a X = Some (q', s')" "st' = rest @ rev s'"
    by (auto simp: step_snoc split: list.splits option.splits)
  from get_transition_mem[OF g(1)] have m: "((q, a, X), (q', s')) \<in> set (transitions P)" .
  from m er have "q' \<in> set (states P)"
    by (auto simp: endpoints_registered_def list_all_iff)
  moreover from m pr have "set s' \<subseteq> set (stack_alphabet P)"
    by (fastforce simp: symbols_registered_def list_all_iff)
  ultimately show ?thesis using st r g(2) by auto
qed

lemma accepts_loop_check:
  "acceptance_check A m q inp st \<Longrightarrow> accepts_loop A m f q inp st"
  by (cases f) simp_all

lemma check_final_state:
  "acceptance_check A ''final_state'' q inp st \<longleftrightarrow> inp = [] \<and> q \<in> set (final_states A)"
  by (simp add: acceptance_check_def)

lemma final_index_cases: "final_index P p = 0 \<or> final_index P p = 1"
  by (simp add: final_index_def)

lemma final_index_1: "final_index P p = Suc 0 \<longleftrightarrow> p \<in> set (final_states P)"
  by (simp add: final_index_def)

lemma complement_simulation:
  assumes co: "complement_of P C" and det: "deterministic_table P"
    and er: "endpoints_registered P" and pr: "symbols_registered P"
  shows "run P n (q, inp, st) = Some (q', [], st') \<Longrightarrow> st' \<noteq> [] \<Longrightarrow>
     step P q' [] st' = None \<Longrightarrow>
     q \<in> set (states P) \<Longrightarrow> set st \<subseteq> set (stack_alphabet P) \<Longrightarrow>
     i = 0 \<or> i = 1 \<Longrightarrow> (q \<in> set (final_states P) \<longrightarrow> i = 1) \<Longrightarrow>
     n + length inp + 1 \<le> f \<Longrightarrow>
     accepts_loop C ''final_state'' f (q, i) inp st =
       (\<not> ((inp = [] \<and> i = 1) \<or> accepts_loop P ''final_state'' n q inp st))"
proof (induction n arbitrary: q inp st i f)
  case 0
  from "0.prems"(1) have eq: "q = q'" "inp = []" "st = st'" by simp_all
  from "0.prems"(2) eq obtain rest X where st: "st = rest @ [X]"
    by (cases st rule: rev_cases) auto
  from "0.prems"(3) eq st have noeps: "get_transition P q None X = None"
    by (auto simp: step_snoc split: option.splits)
  from "0.prems"(8) obtain f' where f: "f = Suc f'" by (cases f) auto
  from "0.prems"(5) st have X: "X \<in> set (stack_alphabet P)" by simp
  have nc: "\<not> acceptance_check C ''final_state'' (q, i) inp st"
    using "0.prems"(6) by (auto simp: check_final_state C_final[OF co])
  show ?case
  proof (cases "i = 1")
    case True
    have "step C (q, 1) [] st = None"
      by (simp add: st step_snoc C_lambda_1[OF co, unfolded One_nat_def] noeps)
    with True nc eq f show ?thesis by simp
  next
    case False
    with "0.prems"(6) have i0: "i = 0" by simp
    have sC: "step C (q, 0) [] st = Some ((q, 2), [], st)"
      by (simp add: st step_snoc C_lambda_0_None[OF co noeps "0.prems"(4) X])
    have "acceptance_check C ''final_state'' (q, 2) [] st"
      using "0.prems"(4) by (simp add: check_final_state C_final[OF co])
    then have "accepts_loop C ''final_state'' f' (q, 2) [] st"
      by (rule accepts_loop_check)
    moreover have "\<not> accepts_loop P ''final_state'' 0 q inp st"
      using "0.prems"(7) i0 by (simp add: check_final_state)
    ultimately show ?thesis using nc eq f i0 sC by simp
  qed
next
  case (Suc n)
  from Suc.prems(1) obtain q1 inp1 st1 where
    s1: "step P q inp st = Some (q1, inp1, st1)"
    and r1: "run P n (q1, inp1, st1) = Some (q', [], st')"
    by (auto split: option.splits)
  from step_config_ok[OF er pr s1 Suc.prems(5)]
  have ok1: "q1 \<in> set (states P)" "set st1 \<subseteq> set (stack_alphabet P)" by simp_all
  from step_nonempty[OF s1] obtain rest X where st: "st = rest @ [X]" by blast
  from Suc.prems(5) st have X: "X \<in> set (stack_alphabet P)" by simp
  from Suc.prems(8) obtain f' where f: "f = Suc f'" by (cases f) auto
  have nc: "\<not> acceptance_check C ''final_state'' (q, i) inp st"
    using Suc.prems(6) by (auto simp: check_final_state C_final[OF co])
  have Pside: "accepts_loop P ''final_state'' (Suc n) q inp st =
      ((inp = [] \<and> q \<in> set (final_states P)) \<or> accepts_loop P ''final_state'' n q1 inp1 st1)"
    by (auto simp: s1 check_final_state)
  have fin1: "inp1 = [] \<and> final_index P q1 = 1 \<longrightarrow> accepts_loop P ''final_state'' n q1 inp1 st1"
    by (auto intro!: accepts_loop_check simp: check_final_state final_index_1)
  note IH = Suc.IH[OF r1 Suc.prems(2) Suc.prems(3) ok1]
  show ?case
  proof (cases inp)
    case Nil
    from s1 st Nil obtain s where g: "get_transition P q None X = Some (q1, s)"
        "inp1 = []" "st1 = rest @ rev s"
      by (auto simp: step_snoc split: option.splits)
    show ?thesis
    proof (cases "i = 1")
      case True
      have sC: "step C (q, 1) [] st = Some ((q1, 1), [], st1)"
        by (simp add: st step_snoc C_lambda_1[OF co, unfolded One_nat_def] g)
      have "accepts_loop C ''final_state'' f' (q1, 1) inp1 st1 =
          (\<not> ((inp1 = [] \<and> (1::nat) = 1) \<or> accepts_loop P ''final_state'' n q1 inp1 st1))"
        using Suc.prems(8) f g(2) by (intro IH) auto
      with True nc f Nil sC g(2) show ?thesis by simp
    next
      case False
      with Suc.prems(6) have i0: "i = 0" by simp
      have sC: "step C (q, 0) [] st = Some ((q1, final_index P q1), [], st1)"
        by (simp add: st step_snoc C_lambda_0_Some[OF co g(1)] g)
      have "accepts_loop C ''final_state'' f' (q1, final_index P q1) inp1 st1 =
          (\<not> ((inp1 = [] \<and> final_index P q1 = 1) \<or>
               accepts_loop P ''final_state'' n q1 inp1 st1))"
        using Suc.prems(8) f g(2) final_index_cases[of P q1]
        by (intro IH) (auto simp: final_index_1)
      moreover have "q \<notin> set (final_states P)" using Suc.prems(7) i0 by auto
      ultimately show ?thesis using nc f Nil sC g(2) i0 Pside fin1 by auto
    qed
  next
    case (Cons a r)
    show ?thesis
    proof (cases "get_transition P q (Some a) X")
      case (Some v)
      obtain p s where v: "v = (p, s)" by (cases v) auto
      from s1 st Cons Some v have g: "q1 = p" "inp1 = r" "st1 = rest @ rev s"
        by (auto simp: step_snoc)
      have "dict_mem (q, Some a, X) (transitions P)"
        using Some by (simp add: get_transition_def dict_mem_def)
      with deterministic_tableD[OF det, of q X a]
      have noeps: "get_transition P q None X = None"
        by (auto simp: get_transition_None_iff)
      have IH': "accepts_loop C ''final_state'' k (p, final_index P p) r st1 =
          (\<not> accepts_loop P ''final_state'' n q1 inp1 st1)" if "n + length r + 1 \<le> k" for k
      proof -
        have "accepts_loop C ''final_state'' k (q1, final_index P q1) inp1 st1 =
          (\<not> ((inp1 = [] \<and> final_index P q1 = 1) \<or>
               accepts_loop P ''final_state'' n q1 inp1 st1))"
          using that g(2) final_index_cases[of P q1]
          by (intro IH) (auto simp: final_index_1)
        with fin1 g show ?thesis by auto
      qed
      show ?thesis
      proof (cases "i = 1")
        case True
        have sC: "step C (q, 1) (a # r) st = Some ((p, final_index P p), r, st1)"
          by (simp add: st step_snoc C_symbol_12[OF co] Some v g)
        have "n + length r + 1 \<le> f'" using Suc.prems(8) f Cons by simp
        from IH'[OF this] True nc f Cons sC Pside show ?thesis by simp
      next
        case False
        with Suc.prems(6) have i0: "i = 0" by simp
        have sC: "step C (q, 0) (a # r) st = Some ((q, 2), a # r, st)"
          by (simp add: st step_snoc C_symbol_0[OF co]
              C_lambda_0_None[OF co noeps Suc.prems(4) X])
        from Suc.prems(8) f Cons obtain f'' where f': "f' = Suc f''" by (cases f') auto
        have nc2: "\<not> acceptance_check C ''final_state'' (q, 2) (a # r) st"
          by (simp add: check_final_state)
        have sC2: "step C (q, 2) (a # r) st = Some ((p, final_index P p), r, st1)"
          by (simp add: st step_snoc C_symbol_12[OF co] Some v g)
        have "n + length r + 1 \<le> f''" using Suc.prems(8) f f' Cons by simp
        from IH'[OF this] nc f f' Cons sC sC2 nc2 i0 Pside show ?thesis by simp
      qed
    next
      case None
      from s1 st Cons None obtain s where g: "get_transition P q None X = Some (q1, s)"
          "inp1 = a # r" "st1 = rest @ rev s"
        by (auto simp: step_snoc split: option.splits)
      have IH': "accepts_loop C ''final_state'' f' (q1, j) inp1 st1 =
          (\<not> accepts_loop P ''final_state'' n q1 inp1 st1)"
        if "j = 0 \<or> j = 1" "q1 \<in> set (final_states P) \<longrightarrow> j = 1" for j
      proof -
        have "accepts_loop C ''final_state'' f' (q1, j) inp1 st1 =
          (\<not> ((inp1 = [] \<and> j = 1) \<or> accepts_loop P ''final_state'' n q1 inp1 st1))"
          using that Suc.prems(8) f g(2) Cons by (intro IH) auto
        with g(2) show ?thesis by simp
      qed
      show ?thesis
      proof (cases "i = 1")
        case True
        have sC: "step C (q, 1) (a # r) st = Some ((q1, 1), a # r, st1)"
          by (simp add: st step_snoc C_symbol_12[OF co] C_lambda_1[OF co, unfolded One_nat_def] None g)
        from IH'[of 1] True nc f Cons sC Pside g(2) show ?thesis by simp
      next
        case False
        with Suc.prems(6) have i0: "i = 0" by simp
        have sC: "step C (q, 0) (a # r) st = Some ((q1, final_index P q1), a # r, st1)"
          by (simp add: st step_snoc C_symbol_0[OF co] C_lambda_0_Some[OF co g(1)] g)
        from IH'[of "final_index P q1"] final_index_cases[of P q1]
          nc f Cons sC Pside g(2) i0 show ?thesis by (simp add: final_index_1)
      qed
    qed
  qed
qed


section \<open>Complement correctness on a run that comes to rest\<close>

lemma accepts_loop_fuel:
  "run P n (q, inp, st) = Some (q', inp', st') \<Longrightarrow> step P q' inp' st' = None \<Longrightarrow> n \<le> f \<Longrightarrow>
   accepts_loop P m f q inp st = accepts_loop P m n q inp st"
proof (induction n arbitrary: f q inp st)
  case 0
  then show ?case by (cases f) auto
next
  case (Suc n)
  from Suc.prems(3) obtain f' where f: "f = Suc f'" by (cases f) auto
  from Suc.prems(1) obtain q1 inp1 st1 where
    s1: "step P q inp st = Some (q1, inp1, st1)"
    and r1: "run P n (q1, inp1, st1) = Some (q', inp', st')"
    by (auto split: option.splits)
  from Suc.IH[OF r1 Suc.prems(2), of f'] Suc.prems(3) f s1 show ?case by simp
qed

lemma complement_accepts_general:
  assumes co: "complement_of P C" and det: "deterministic_table P"
    and er: "endpoints_registered P" and pr: "symbols_registered P"
    and z0: "initial_stack_symbol P \<in> set (stack_alphabet P)"
    and init: "initial_state P = Some q0"
    and rest: "rests_after P n q0 word"
    and bound: "n \<le> 99 * length word + 999"
  shows "accepts C word ''final_state'' = (\<not> accepts P word ''final_state'')"
proof -
  let ?Z = "initial_stack_symbol P"
  from rest obtain q' st' where
    r: "run P n (q0, word, [?Z]) = Some (q', [], st')" "st' \<noteq> []" "step P q' [] st' = None"
    by (auto simp: rests_after_def split: option.splits)
  from crear_automata_complemento_Inr(3,4)[OF hC[OF co]] init
  have cinit: "initial_state C = Some (q0, final_index P q0)" "q0 \<in> set (states P)"
      "initial_stack_symbol C = ?Z"
    by auto
  have le: "n + length word + 1 \<le> max_steps word" "n \<le> max_steps word"
    using bound by (simp_all add: max_steps_def)
  have "accepts_loop C ''final_state'' (max_steps word) (q0, final_index P q0) word [?Z] =
      (\<not> ((word = [] \<and> final_index P q0 = 1) \<or> accepts_loop P ''final_state'' n q0 word [?Z]))"
    using r cinit(2) z0 le(1) final_index_cases[of P q0]
    by (intro complement_simulation[OF co det er pr]) (auto simp: final_index_1)
  moreover have "word = [] \<and> final_index P q0 = 1 \<longrightarrow> accepts_loop P ''final_state'' n q0 word [?Z]"
    by (auto intro!: accepts_loop_check simp: check_final_state final_index_1)
  moreover have "accepts_loop P ''final_state'' (max_steps word) q0 word [?Z] =
      accepts_loop P ''final_state'' n q0 word [?Z]"
    by (rule accepts_loop_fuel[OF r(1) r(3) le(2)])
  ultimately show ?thesis
    using init cinit by (auto simp: accepts_def)
qed

section \<open>Invariants of the builder\<close>

lemma set_foldl_set_add: "set (foldl (\<lambda>g x. set_add x g) g0 xs) = set g0 \<union> set xs"
  by (induction xs arbitrary: g0) auto

lemma distinct_foldl_set_add: "distinct g0 \<Longrightarrow> distinct (foldl (\<lambda>g x. set_add x g) g0 xs)"
  by (induction xs arbitrary: g0) (auto simp: distinct_set_add)

lemma add_transition_alphabets:
  assumes "add_transition P s t a X w = Inr P'"
  shows "set (stack_alphabet P') = set (stack_alphabet P) \<union> {X} \<union> set w"
    and "distinct (stack_alphabet P) \<Longrightarrow> distinct (stack_alphabet P')"
  using assms
  by (auto simp: add_transition_def set_foldl_set_add distinct_foldl_set_add distinct_set_add
      split: if_splits)

lemma deterministic_table_same:
  "transitions P' = transitions P \<Longrightarrow> deterministic_table P' = deterministic_table P"
  by (simp add: deterministic_table_def)

lemma endpoints_registered_mono:
  "transitions P' = transitions P \<Longrightarrow> set (states P) \<subseteq> set (states P') \<Longrightarrow>
   endpoints_registered P \<Longrightarrow> endpoints_registered P'"
  unfolding endpoints_registered_def list_all_iff by fastforce

lemma symbols_registered_mono:
  "transitions P' = transitions P \<Longrightarrow> set (input_alphabet P) \<subseteq> set (input_alphabet P') \<Longrightarrow>
   set (stack_alphabet P) \<subseteq> set (stack_alphabet P') \<Longrightarrow>
   symbols_registered P \<Longrightarrow> symbols_registered P'"
  unfolding symbols_registered_def list_all_iff by (fastforce split: option.splits)

lemma add_state_invariant:
  assumes a: "add_state P s f = Inr P'" and wf: "well_formed P" and det: "deterministic_table P"
  shows "well_formed P' \<and> deterministic_table P'"
proof -
  note r = add_state_Inr[OF a]
  have "duplicate_free P'"
    using wf r(1) by (simp add: well_formed_def duplicate_free_def r)
  moreover have "endpoints_registered P'"
    using wf by (intro endpoints_registered_mono[of P' P]) (auto simp: well_formed_def r)
  moreover have "symbols_registered P'"
    using wf by (intro symbols_registered_mono[of P' P]) (auto simp: well_formed_def r)
  moreover have "initial_registered P'"
    using wf by (auto simp: well_formed_def initial_registered_def r split: option.splits)
  moreover have "finals_registered P'"
    using wf by (auto simp: well_formed_def finals_registered_def list_all_iff r)
  moreover have "deterministic_table P'"
    using det deterministic_table_same[of P' P] by (simp add: r)
  ultimately show ?thesis by (simp add: well_formed_def)
qed

lemma mark_initial_state_invariant:
  assumes a: "mark_initial_state P s = Inr P'" and wf: "well_formed P"
    and det: "deterministic_table P"
  shows "well_formed P' \<and> deterministic_table P'"
proof -
  from a have P': "P' = P\<lparr>initial_state := Some s\<rparr>" and s: "s \<in> set (states P)"
    by (auto simp: mark_initial_state_def split: if_splits)
  have "duplicate_free P'"
    using wf by (simp add: well_formed_def duplicate_free_def P')
  moreover have "endpoints_registered P'"
    using wf by (intro endpoints_registered_mono[of P' P]) (auto simp: well_formed_def P')
  moreover have "symbols_registered P'"
    using wf by (intro symbols_registered_mono[of P' P]) (auto simp: well_formed_def P')
  moreover have "initial_registered P'"
    using s by (simp add: initial_registered_def P')
  moreover have "finals_registered P'"
    using wf by (simp add: well_formed_def finals_registered_def P')
  moreover have "deterministic_table P'"
    using det deterministic_table_same[of P' P] by (simp add: P')
  ultimately show ?thesis by (simp add: well_formed_def)
qed

lemma set_initial_stack_symbol_invariant:
  assumes wf: "well_formed P" and det: "deterministic_table P"
  shows "well_formed (set_initial_stack_symbol P c) \<and>
         deterministic_table (set_initial_stack_symbol P c)"
proof -
  let ?P = "set_initial_stack_symbol P c"
  have "duplicate_free ?P"
    using wf by (simp add: well_formed_def duplicate_free_def set_initial_stack_symbol_def
        distinct_set_add)
  moreover have "endpoints_registered ?P"
    using wf by (intro endpoints_registered_mono[of ?P P])
      (auto simp: well_formed_def set_initial_stack_symbol_def)
  moreover have "symbols_registered ?P"
    using wf by (intro symbols_registered_mono[of ?P P])
      (auto simp: well_formed_def set_initial_stack_symbol_def)
  moreover have "initial_registered ?P"
    using wf by (auto simp: well_formed_def initial_registered_def set_initial_stack_symbol_def
        split: option.splits)
  moreover have "finals_registered ?P"
    using wf by (simp add: well_formed_def finals_registered_def set_initial_stack_symbol_def)
  moreover have "deterministic_table ?P"
    using det deterministic_table_same[of ?P P] by (simp add: set_initial_stack_symbol_def)
  ultimately show ?thesis by (simp add: well_formed_def)
qed

lemma symbols_registeredD:
  "symbols_registered P \<Longrightarrow> dict_mem (q, Some c, X) (transitions P) \<Longrightarrow>
   c \<in> set (input_alphabet P)"
  by (fastforce simp: symbols_registered_def dict_mem_iff list_all_iff)

lemma add_transition_invariant:
  assumes a: "add_transition P s t a X w = Inr P'"
    and wf: "well_formed P" and det: "deterministic_table P"
  shows "well_formed P' \<and> deterministic_table P'"
proof -
  note r = add_transition_Inr[OF a] and al = add_transition_alphabets[OF a]
  have keys: "fst ` set (transitions P') = insert (s, a, X) (fst ` set (transitions P))"
    by (simp add: r(6))
  have "duplicate_free P'"
    using wf r(3) al(2) by (auto simp: well_formed_def duplicate_free_def r dict_mem_iff)
  moreover have "endpoints_registered P'"
    using wf r(1,2) by (auto simp: well_formed_def endpoints_registered_def r)
  moreover have "symbols_registered P'"
    using wf unfolding well_formed_def symbols_registered_def list_all_iff r(6) r(11) al(1)
    by (auto split: option.splits)
  moreover have "initial_registered P'"
    using wf by (auto simp: well_formed_def initial_registered_def r split: option.splits)
  moreover have "finals_registered P'"
    using wf by (simp add: well_formed_def finals_registered_def r)
  moreover have "deterministic_table P'"
  proof (rule deterministic_tableI)
    fix q Y c
    assume e: "dict_mem (q, None, Y) (transitions P')"
    show "\<not> dict_mem (q, Some c, Y) (transitions P')"
    proof
      assume y: "dict_mem (q, Some c, Y) (transitions P')"
      from e have e': "(q, None, Y) = (s, a, X) \<or> dict_mem (q, None, Y) (transitions P)"
        unfolding dict_mem_iff keys by auto
      from y have y': "(q, Some c, Y) = (s, a, X) \<or> dict_mem (q, Some c, Y) (transitions P)"
        unfolding dict_mem_iff keys by auto
      from e' y' show False
      proof (elim disjE)
        assume "(q, None, Y) = (s, a, X)" "(q, Some c, Y) = (s, a, X)"
        then show False by simp
      next
        assume n: "(q, None, Y) = (s, a, X)" and o: "dict_mem (q, Some c, Y) (transitions P)"
        from wf o have "c \<in> set (input_alphabet P)"
          by (auto simp: well_formed_def dest: symbols_registeredD)
        with r(5)[of c] n o show False by auto
      next
        assume o: "dict_mem (q, None, Y) (transitions P)" and n: "(q, Some c, Y) = (s, a, X)"
        with r(4) show False by auto
      next
        assume "dict_mem (q, None, Y) (transitions P)" "dict_mem (q, Some c, Y) (transitions P)"
        with deterministic_tableD[OF det] show False by blast
      qed
    qed
  qed
  ultimately show ?thesis by (simp add: well_formed_def)
qed

lemma apply_op_invariant:
  assumes "apply_op P c = Inr P'" and "well_formed P" and "deterministic_table P"
  shows "well_formed P' \<and> deterministic_table P'"
proof (cases c)
  case (Add_state s f)
  with assms show ?thesis by (auto dest: add_state_invariant)
next
  case (Mark_initial_state s)
  with assms show ?thesis by (auto dest: mark_initial_state_invariant)
next
  case (Set_initial_stack_symbol x)
  with assms show ?thesis by (auto dest: set_initial_stack_symbol_invariant)
next
  case (Add_transition s t a X w)
  with assms show ?thesis by (auto dest: add_transition_invariant)
qed

lemma build_invariant:
  "build P cs = Inr P' \<Longrightarrow> well_formed P \<Longrightarrow> deterministic_table P \<Longrightarrow>
   well_formed P' \<and> deterministic_table P'"
proof (induction cs arbitrary: P)
  case Nil
  then show ?case by simp
next
  case (Cons c cs)
  from Cons.prems(1) obtain P1 where s: "apply_op P c = Inr P1" "build P1 cs = Inr P'"
    by (auto simp: bind_err_Inr_iff)
  from apply_op_invariant[OF s(1) Cons.prems(2,3)] Cons.IH[OF s(2)] show ?case by blast
qed

lemma AP_init_invariant: "well_formed AP_init \<and> deterministic_table AP_init"
  by (simp add: AP_init_def well_formed_def duplicate_free_def endpoints_registered_def
      symbols_registered_def initial_registered_def finals_registered_def
      deterministic_table_def)

lemma built_invariant: "built P \<Longrightarrow> well_formed P \<and> deterministic_table P"
  unfolding built_def using build_invariant AP_init_invariant by blast


section \<open>Renaming of states\<close>

section \<open>Names\<close>

lemma digit_char_not_colon: "d < 10 \<Longrightarrow> digit_char d \<noteq> CHR '':''"
proof -
  assume "d < 10"
  then have "d \<in> {0, 1, 2, 3, 4, 5, 6, 7, 8, 9}" by auto
  then show ?thesis by (auto simp: digit_char_def)
qed

lemma digit_char_inj: "d < 10 \<Longrightarrow> e < 10 \<Longrightarrow> digit_char d = digit_char e \<Longrightarrow> d = e"
proof -
  assume "d < 10" "e < 10" and eq: "digit_char d = digit_char e"
  have "distinct ''0123456789''" by simp
  moreover have "d < length ''0123456789''" "e < length ''0123456789''"
    using \<open>d < 10\<close> \<open>e < 10\<close> by simp_all
  ultimately show "d = e"
    using eq unfolding digit_char_def by (simp only: nth_eq_iff_index_eq)
qed

lemma str_nat_nonempty: "str_nat n \<noteq> []"
  by (subst str_nat.simps) simp

lemma colon_notin_str_nat: "CHR '':'' \<notin> set (str_nat n)"
proof (induction n rule: str_nat.induct)
  case (1 n)
  show ?case
  proof (cases "n < 10")
    case True
    then show ?thesis
      using digit_char_not_colon[of n] by (subst str_nat.simps) auto
  next
    case False
    have "n mod 10 < 10" by simp
    with False "1.IH" digit_char_not_colon[of "n mod 10"] show ?thesis
      by (subst str_nat.simps) auto
  qed
qed

lemma str_nat_inj: "str_nat n = str_nat m \<Longrightarrow> n = m"
proof (induction n arbitrary: m rule: str_nat.induct)
  case (1 n)
  show ?case
  proof (cases "n < 10")
    case True
    show ?thesis
    proof (cases "m < 10")
      case m: True
      from "1.prems" True m have "digit_char n = digit_char m"
        by (simp add: str_nat.simps[of n] str_nat.simps[of m])
      with True m show ?thesis by (rule digit_char_inj)
    next
      case m: False
      from "1.prems" True m str_nat_nonempty[of "m div 10"] show ?thesis
        by (simp add: str_nat.simps[of n] str_nat.simps[of m])
    qed
  next
    case False
    show ?thesis
    proof (cases "m < 10")
      case m: True
      from "1.prems" False m str_nat_nonempty[of "n div 10"] show ?thesis
        by (simp add: str_nat.simps[of n] str_nat.simps[of m])
    next
      case m: False
      from "1.prems" False m have e: "str_nat (n div 10) = str_nat (m div 10)"
          "digit_char (n mod 10) = digit_char (m mod 10)"
        by (simp_all add: str_nat.simps[of n] str_nat.simps[of m])
      from "1.IH"[OF False e(1)] have "n div 10 = m div 10" .
      moreover from e(2) have "n mod 10 = m mod 10"
        by (intro digit_char_inj) simp_all
      ultimately show ?thesis by (metis div_mult_mod_eq)
    qed
  qed
qed

lemma str_nat_0: "str_nat 0 = ''0''"
  by (simp add: str_nat.simps digit_char_def)

lemma last_segment_clean: "CHR '':'' \<notin> set s \<Longrightarrow> last_segment s = s"
proof -
  assume "CHR '':'' \<notin> set s"
  then have tw: "takeWhile (\<lambda>c. c \<noteq> CHR '':'') (rev s) = rev s"
    by (intro takeWhile_eq_all_conv[THEN iffD2]) auto
  show ?thesis unfolding last_segment_def tw by simp
qed

lemma last_segment_no_colon: "CHR '':'' \<notin> set (last_segment s)"
  unfolding last_segment_def by (auto dest: set_takeWhileD)

lemma last_segment_temp: "last_segment (''temp:'' @ s) = last_segment s"
proof (cases "CHR '':'' \<in> set s")
  case True
  then have "CHR '':'' \<in> set (rev s)" by simp
  then have tw: "takeWhile (\<lambda>c. c \<noteq> CHR '':'') (rev s @ rev ''temp:'') =
      takeWhile (\<lambda>c. c \<noteq> CHR '':'') (rev s)"
    by (rule takeWhile_append1) simp
  show ?thesis unfolding last_segment_def rev_append tw ..
next
  case False
  then have tw: "takeWhile (\<lambda>c. c \<noteq> CHR '':'') (rev s @ rev ''temp:'') = rev s"
    by (subst takeWhile_append2) auto
  have "last_segment (''temp:'' @ s) = s"
    unfolding last_segment_def rev_append tw by simp
  with False show ?thesis by (simp add: last_segment_clean)
qed

lemma starts_with_temp_colon: "starts_with ''temp:'' s \<Longrightarrow> CHR '':'' \<in> set s"
proof -
  assume "starts_with ''temp:'' s"
  then have eq: "take (length ''temp:'') s = ''temp:''" unfolding starts_with_def .
  have "CHR '':'' \<in> set (take (length ''temp:'') s)" unfolding eq by simp
  then show ?thesis by (rule in_set_takeD)
qed

lemma starts_with_temp_append: "starts_with ''temp:'' (''temp:'' @ s)"
  by (simp add: starts_with_def)

lemma fresh_name_fresh: "Str (fresh_name sts n) \<notin> set sts"
  by (induction sts n rule: fresh_name.induct) (subst fresh_name.simps, simp)

lemma fresh_name_segment: "last_segment (fresh_name sts n) = last_segment n"
proof (induction sts n rule: fresh_name.induct)
  case (1 sts n)
  show ?case
  proof (cases "Str n \<in> set sts")
    case True
    then have "fresh_name sts n = fresh_name sts (''temp:'' @ n)"
      by (subst fresh_name.simps) simp
    then have "last_segment (fresh_name sts n) = last_segment (''temp:'' @ n)"
      using "1.IH"[OF True] by simp
    then show ?thesis by (simp only: last_segment_temp)
  next
    case False
    then show ?thesis by (subst fresh_name.simps) simp
  qed
qed

lemma fresh_name_shape: "fresh_name sts n = n \<or> starts_with ''temp:'' (fresh_name sts n)"
proof (cases "Str n \<in> set sts")
  case False
  then show ?thesis by (subst fresh_name.simps) simp
next
  case True
  have "starts_with ''temp:'' (fresh_name sts m)" if "starts_with ''temp:'' m" for m
    using that
  proof (induction sts m rule: fresh_name.induct)
    case (1 sts m)
    show ?case
    proof (cases "Str m \<in> set sts")
      case True
      with "1.IH"[OF True starts_with_temp_append] show ?thesis
        by (subst fresh_name.simps) simp
    next
      case False
      with "1.prems" show ?thesis by (subst fresh_name.simps) simp
    qed
  qed
  from this[OF starts_with_temp_append[of n]] True show ?thesis
    by (subst (2) fresh_name.simps) simp
qed

lemma foldl_dict_set_fresh:
  "distinct (map fst (acc @ xs)) \<Longrightarrow>
   foldl (\<lambda>d e. dict_set (fst e) (snd e) d) acc xs = acc @ xs"
proof (induction xs arbitrary: acc)
  case Nil
  then show ?case by simp
next
  case (Cons x xs)
  from Cons.prems have "\<not> dict_mem (fst x) acc"
    by (auto simp: dict_mem_iff)
  then have "dict_set (fst x) (snd x) acc = acc @ [x]"
    by (simp add: dict_set_fresh)
  moreover from Cons.prems have "distinct (map fst ((acc @ [x]) @ xs))" by simp
  ultimately show ?case using Cons.IH[of "acc @ [x]"] by simp
qed

lemma rename_state_in_transitions_fold:
  "rename_state_in_transitions old new ts =
     foldl (\<lambda>d e. dict_set (fst e) (snd e) d) []
       (map (rename_entry (\<lambda>s. if s = old then new else s)) ts)"
proof -
  have "foldl (\<lambda>new_transitions ((state, input_sym, stack_sym), (target_state, stack_string)).
              dict_set ((if state = old then new else state), input_sym, stack_sym)
                ((if target_state = old then new else target_state), stack_string)
                new_transitions) acc ts =
     foldl (\<lambda>d e. dict_set (fst e) (snd e) d) acc
       (map (rename_entry (\<lambda>s. if s = old then new else s)) ts)" for acc
    by (induction ts arbitrary: acc) (auto simp: rename_entry_def)
  then show ?thesis by (simp add: rename_state_in_transitions_def)
qed

lemma rename_entry_keys_distinct:
  assumes "distinct (map fst ts)" and "inj_on f S"
    and "\<forall>((q, a, X), (p, s))\<in>set ts. q \<in> S"
  shows "distinct (map fst (map (rename_entry f) ts))"
proof -
  have eq: "map fst (map (rename_entry f) ts) = map (\<lambda>(q, a, X). (f q, a, X)) (map fst ts)"
    by (auto simp: rename_entry_def split: prod.splits)
  have inj: "inj_on (\<lambda>(q, a, X). (f q, a, X)) (set (map fst ts))"
  proof (rule inj_onI)
    fix k k'
    assume k: "k \<in> set (map fst ts)" "k' \<in> set (map fst ts)"
      and e: "(case k of (q, a, X) \<Rightarrow> (f q, a, X)) = (case k' of (q, a, X) \<Rightarrow> (f q, a, X))"
    obtain q a X where kk: "k = (q, a, X)" by (cases k) auto
    obtain q' a' X' where kk': "k' = (q', a', X')" by (cases k') auto
    from k kk kk' assms(3) have "q \<in> S" "q' \<in> S" by force+
    with e kk kk' assms(2) show "k = k'" by (auto dest: inj_onD)
  qed
  show ?thesis
    unfolding eq
    using distinct_map[of "\<lambda>(q, a, X). (f q, a, X)" "map fst ts"] assms(1) inj by blast
qed

lemma rename_state_fresh:
  assumes wf: "well_formed P" and old: "old \<in> set (states P)" and new: "new \<notin> set (states P)"
  shows "\<exists>P'. rename_state P old new = Inr P' \<and>
           renamed (\<lambda>s. if s = old then new else s) P P' \<and> well_formed P'"
proof -
  let ?r = "\<lambda>s. if s = old then new else s"
  from old new have ne: "old \<noteq> new" by auto
  have inj: "inj_on ?r (set (states P))"
    using new by (auto simp: inj_on_def)
  from wf have d: "distinct (states P)" "distinct (map fst (transitions P))"
      "distinct (stack_alphabet P)"
    and er: "endpoints_registered P" and sr: "symbols_registered P"
    and ir: "initial_registered P" and fr: "finals_registered P"
    by (simp_all add: well_formed_def duplicate_free_def)
  have ends: "\<And>q a X p s. ((q, a, X), (p, s)) \<in> set (transitions P) \<Longrightarrow>
      q \<in> set (states P) \<and> p \<in> set (states P)"
    using er by (auto simp: endpoints_registered_def list_all_iff)
  have kd: "distinct (map fst (map (rename_entry ?r) (transitions P)))"
    using d(2) inj ends by (intro rename_entry_keys_distinct[where S = "set (states P)"]) auto
  have tr: "rename_state_in_transitions old new (transitions P) =
      map (rename_entry ?r) (transitions P)"
    unfolding rename_state_in_transitions_fold
    using foldl_dict_set_fresh[of "[]" "map (rename_entry ?r) (transitions P)"] kd by simp
  define P' where "P' = P\<lparr> states := set_add new (set_remove old (states P)),
      initial_state := (if initial_state P = Some old then Some new else initial_state P),
      final_states := (if old \<in> set (final_states P)
                       then set_add new (set_remove old (final_states P))
                       else final_states P),
      transitions := map (rename_entry ?r) (transitions P) \<rparr>"
  have res: "rename_state P old new = Inr P'"
    using ne old by (simp add: rename_state_def tr P'_def)
  have fin_sub: "set (final_states P) \<subseteq> set (states P)"
    using fr by (auto simp: finals_registered_def list_all_iff)
  have st: "set (states P') = ?r ` set (states P)"
    using old new by (auto simp: P'_def set_remove_def)
  have fi: "set (final_states P') = ?r ` set (final_states P)"
    using new fin_sub by (auto simp: P'_def set_remove_def)
  have ini: "initial_state P' = map_option ?r (initial_state P)"
    by (cases "initial_state P") (auto simp: P'_def)
  have ren: "renamed ?r P P'"
    unfolding renamed_def using st fi ini by (simp add: P'_def)
  have "distinct (states P')"
    using d(1) new by (auto simp: P'_def set_add_def set_remove_def)
  then have "duplicate_free P'"
    using kd d(3) by (simp add: duplicate_free_def P'_def)
  moreover have "endpoints_registered P'"
    unfolding endpoints_registered_def list_all_iff st
    using ends by (auto simp: P'_def rename_entry_def split: prod.splits)
  moreover have "symbols_registered P'"
    using sr unfolding symbols_registered_def list_all_iff
    by (auto simp: P'_def rename_entry_def split: prod.splits option.splits)
  moreover have "initial_registered P'"
    using ir unfolding initial_registered_def ini st
    by (cases "initial_state P") auto
  moreover have "finals_registered P'"
    unfolding finals_registered_def list_all_iff fi st using fin_sub by auto
  ultimately have "well_formed P'" by (simp add: well_formed_def)
  with res ren show ?thesis by blast
qed

lemma rename_state_same: "rename_state P s s = Inr P"
  by (simp add: rename_state_def)

lemma rename_entry_comp: "rename_entry g (rename_entry f e) = rename_entry (g \<circ> f) e"
  by (auto simp: rename_entry_def split: prod.splits)

lemma renamed_comp:
  assumes "renamed f P P'" and "renamed g P' P''"
  shows "renamed (g \<circ> f) P P''"
proof -
  have "rename_entry g ` rename_entry f ` set (transitions P) =
      rename_entry (g \<circ> f) ` set (transitions P)"
    by (auto simp: image_iff rename_entry_comp)
  with assms show ?thesis
    by (simp add: renamed_def image_comp option.map_comp)
qed

lemma renamed_refl: "renamed (\<lambda>s. s) P P"
  by (auto simp: renamed_def rename_entry_def image_iff option.map_ident split: prod.splits)

lemma wf_subsets:
  assumes "well_formed P"
  shows "set (final_states P) \<subseteq> set (states P)"
    and "\<And>q0. initial_state P = Some q0 \<Longrightarrow> q0 \<in> set (states P)"
    and "\<And>q a X p s. ((q, a, X), (p, s)) \<in> set (transitions P) \<Longrightarrow>
           q \<in> set (states P) \<and> p \<in> set (states P)"
    and "distinct (states P)" and "distinct (map fst (transitions P))"
  using assms
  by (auto simp: well_formed_def finals_registered_def initial_registered_def
      endpoints_registered_def duplicate_free_def list_all_iff split: option.splits)

lemma renamed_cong:
  assumes r: "renamed f P P'" and wf: "well_formed P"
    and eq: "\<And>s. s \<in> set (states P) \<Longrightarrow> f s = g s"
  shows "renamed g P P'"
proof -
  note w = wf_subsets[OF wf]
  have "f ` set (states P) = g ` set (states P)" using eq by (auto simp: image_iff)
  moreover have "f ` set (final_states P) = g ` set (final_states P)"
    using eq w(1) by (auto simp: image_iff subsetD)
  moreover have "map_option f (initial_state P) = map_option g (initial_state P)"
    using eq w(2) by (cases "initial_state P") auto
  moreover have "rename_entry f e = rename_entry g e" if "e \<in> set (transitions P)" for e
  proof -
    obtain q a X p s where e: "e = ((q, a, X), (p, s))" by (cases e) auto
    with that w(3) eq show ?thesis by (auto simp: rename_entry_def)
  qed
  then have "rename_entry f ` set (transitions P) = rename_entry g ` set (transitions P)"
    by (auto simp: image_iff)
  ultimately show ?thesis using r by (simp add: renamed_def)
qed

text \<open>Lookups, moves and acceptance under an injective renaming.\<close>

lemma renamed_get_transition:
  assumes r: "renamed f P P'" and inj: "inj_on f (set (states P))"
    and wf: "well_formed P" and wf': "well_formed P'" and q: "q \<in> set (states P)"
  shows "get_transition P' (f q) a X = map_option (\<lambda>(p, s). (f p, s)) (get_transition P q a X)"
proof -
  note w = wf_subsets[OF wf] and w' = wf_subsets[OF wf']
  from r have tr: "set (transitions P') = rename_entry f ` set (transitions P)"
    by (simp add: renamed_def)
  show ?thesis
  proof (cases "get_transition P q a X")
    case None
    have "get_transition P' (f q) a X = None"
    proof (rule ccontr)
      assume "get_transition P' (f q) a X \<noteq> None"
      then obtain v where "get_transition P' (f q) a X = Some v" by auto
      then have "((f q, a, X), v) \<in> set (transitions P')"
        by (simp add: get_transition_Some_iff[OF w'(5)])
      then obtain e where e: "e \<in> set (transitions P)" "rename_entry f e = ((f q, a, X), v)"
        unfolding tr by auto
      obtain q1 a1 X1 p1 s1 where e1: "e = ((q1, a1, X1), (p1, s1))" by (cases e) auto
      from e e1 have "f q1 = f q" "a1 = a" "X1 = X" by (auto simp: rename_entry_def)
      moreover from e(1) e1 w(3) have "q1 \<in> set (states P)" by blast
      ultimately have "q1 = q" using inj q by (auto dest: inj_onD)
      with e(1) e1 \<open>a1 = a\<close> \<open>X1 = X\<close> have "get_transition P q a X = Some (p1, s1)"
        by (simp add: get_transition_Some_iff[OF w(5)])
      with None show False by simp
    qed
    with None show ?thesis by simp
  next
    case (Some v)
    obtain p s where v: "v = (p, s)" by (cases v) auto
    from Some v have "((q, a, X), (p, s)) \<in> set (transitions P)"
      by (simp add: get_transition_Some_iff[OF w(5)])
    then have "rename_entry f ((q, a, X), (p, s)) \<in> set (transitions P')"
      unfolding tr by (rule imageI)
    then have "get_transition P' (f q) a X = Some (f p, s)"
      by (simp add: get_transition_Some_iff[OF w'(5)] rename_entry_def)
    with Some v show ?thesis by simp
  qed
qed

lemma renamed_step:
  assumes r: "renamed f P P'" and inj: "inj_on f (set (states P))"
    and wf: "well_formed P" and wf': "well_formed P'" and q: "q \<in> set (states P)"
  shows "step P' (f q) inp st = map_option (\<lambda>(p, i, s). (f p, i, s)) (step P q inp st)"
proof (cases st rule: rev_cases)
  case Nil
  then show ?thesis by (simp add: step_def)
next
  case (snoc rest X)
  note g = renamed_get_transition[OF r inj wf wf' q]
  show ?thesis
    unfolding snoc step_snoc g
    by (auto split: list.splits option.splits)
qed

lemma step_state_registered:
  assumes wf: "well_formed P" and s: "step P q inp st = Some (q', inp', st')"
  shows "q' \<in> set (states P)"
proof -
  from step_nonempty[OF s] obtain rest X where r: "st = rest @ [X]" by blast
  from s r obtain a s' where "get_transition P q a X = Some (q', s')"
    by (auto simp: step_snoc split: list.splits option.splits)
  from get_transition_mem[OF this] wf_subsets(3)[OF wf] show ?thesis by blast
qed

lemma renamed_check:
  assumes r: "renamed f P P'" and inj: "inj_on f (set (states P))"
    and wf: "well_formed P" and q: "q \<in> set (states P)"
  shows "acceptance_check P' m (f q) inp st = acceptance_check P m q inp st"
proof -
  from r have "set (final_states P') = f ` set (final_states P)" by (simp add: renamed_def)
  moreover have "f q \<in> f ` set (final_states P) \<longleftrightarrow> q \<in> set (final_states P)"
    using inj q wf_subsets(1)[OF wf] by (auto dest: inj_onD)
  ultimately show ?thesis by (simp add: acceptance_check_def)
qed

lemma renamed_accepts_loop:
  assumes r: "renamed f P P'" and inj: "inj_on f (set (states P))"
    and wf: "well_formed P" and wf': "well_formed P'"
  shows "q \<in> set (states P) \<Longrightarrow>
     accepts_loop P' m n (f q) inp st = accepts_loop P m n q inp st"
proof (induction n arbitrary: q inp st)
  case 0
  then show ?case by (simp add: renamed_check[OF r inj wf])
next
  case (Suc n)
  note c = renamed_check[OF r inj wf Suc.prems] and s = renamed_step[OF r inj wf wf' Suc.prems]
  show ?case
  proof (cases "step P q inp st")
    case None
    with c s show ?thesis by simp
  next
    case (Some c1)
    obtain q1 inp1 st1 where c1: "c1 = (q1, inp1, st1)" by (cases c1) auto
    from step_state_registered[OF wf] Some c1 have "q1 \<in> set (states P)" by blast
    from Suc.IH[OF this] c s Some c1 show ?thesis by simp
  qed
qed

lemma renamed_accepts:
  assumes r: "renamed f P P'" and inj: "inj_on f (set (states P))"
    and wf: "well_formed P" and wf': "well_formed P'"
  shows "accepts P' word m = accepts P word m"
proof (cases "initial_state P")
  case None
  with r have "initial_state P' = None" by (simp add: renamed_def)
  with None show ?thesis by (simp add: accepts_def)
next
  case (Some q0)
  with r have i: "initial_state P' = Some (f q0)"
      "initial_stack_symbol P' = initial_stack_symbol P"
    by (simp_all add: renamed_def)
  from wf_subsets(2)[OF wf Some] have "q0 \<in> set (states P)" .
  from renamed_accepts_loop[OF r inj wf wf' this] Some i show ?thesis
    by (simp add: accepts_def)
qed

lemma renamed_deterministic:
  assumes r: "renamed f P P'" and inj: "inj_on f (set (states P))"
    and wf: "well_formed P" and det: "deterministic_table P"
  shows "deterministic_table P'"
proof (rule deterministic_tableI)
  fix s X c
  assume e: "dict_mem (s, None, X) (transitions P')"
  note w = wf_subsets[OF wf]
  from r have tr: "set (transitions P') = rename_entry f ` set (transitions P)"
    by (simp add: renamed_def)
  show "\<not> dict_mem (s, Some c, X) (transitions P')"
  proof
    assume y: "dict_mem (s, Some c, X) (transitions P')"
    from e obtain q1 p1 s1 where a: "((q1, None, X), (p1, s1)) \<in> set (transitions P)" "f q1 = s"
      unfolding dict_mem_iff tr by (auto simp: rename_entry_def split: prod.splits)
    from y obtain q2 p2 s2 where b: "((q2, Some c, X), (p2, s2)) \<in> set (transitions P)" "f q2 = s"
      unfolding dict_mem_iff tr by (auto simp: rename_entry_def split: prod.splits)
    from a(1) b(1) w(3) have "q1 \<in> set (states P)" "q2 \<in> set (states P)" by blast+
    with a(2) b(2) inj have "q1 = q2" by (auto dest: inj_onD)
    with a(1) b(1) have "dict_mem (q2, None, X) (transitions P)"
        "dict_mem (q2, Some c, X) (transitions P)"
      by (force simp: dict_mem_iff)+
    with deterministic_tableD[OF det] show False by blast
  qed
qed

lemma named_for_clean: "CHR '':'' \<notin> set n \<Longrightarrow> named_for n n"
  by (simp add: named_for_def last_segment_clean)

lemma named_for_fresh: "CHR '':'' \<notin> set n \<Longrightarrow> named_for n (fresh_name sts n)"
  using fresh_name_shape[of sts n]
  by (auto simp: named_for_def fresh_name_segment last_segment_clean)

lemma rename_inj_on:
  "new \<notin> S \<Longrightarrow> inj_on (\<lambda>s. if s = old then new else s) S"
  by (auto simp: inj_on_def)

lemma apply_renames_correct:
  assumes wf0: "well_formed P0" and Ninj: "inj_on N (set (states P0))"
    and Nclean: "\<forall>s\<in>set (states P0). CHR '':'' \<notin> set (N s)"
  shows "renamed F P0 P \<Longrightarrow> inj_on F (set (states P0)) \<Longrightarrow> well_formed P \<Longrightarrow>
     distinct (map fst sched) \<Longrightarrow> fst ` set sched \<subseteq> set (states P0) \<Longrightarrow>
     (\<forall>s\<in>fst ` set sched. F s = s) \<Longrightarrow>
     (\<forall>(old, n, t)\<in>set sched. n = N old) \<Longrightarrow> sched_ok sched \<Longrightarrow>
     (\<forall>s\<in>set (states P0) - fst ` set sched. \<exists>m. F s = Str m \<and> named_for (N s) m) \<Longrightarrow>
     \<exists>P' F'. apply_renames P sched = Inr P' \<and> renamed F' P0 P' \<and>
        inj_on F' (set (states P0)) \<and> well_formed P' \<and>
        (\<forall>s\<in>set (states P0). \<exists>m. F' s = Str m \<and> named_for (N s) m)"
proof (induction sched arbitrary: P F)
  case Nil
  then show ?case by auto
next
  case (Cons x sched)
  obtain old n t where x: "x = (old, n, t)" by (cases x) auto
  note ren = Cons.prems(1) and inj = Cons.prems(2) and wfP = Cons.prems(3)
  from ren have stP: "set (states P) = F ` set (states P0)" by (simp add: renamed_def)
  from Cons.prems(5) x have old0: "old \<in> set (states P0)" by auto
  from Cons.prems(6) x have Fold: "F old = old" by auto
  from old0 Fold stP have oldP: "old \<in> set (states P)" by force
  from Cons.prems(7) x have n: "n = N old" by auto
  from Nclean old0 n have clean: "CHR '':'' \<notin> set n" by auto
  from Cons.prems(4) x have dist: "old \<notin> fst ` set sched" "distinct (map fst sched)" by auto
  define m where "m = (if t then fresh_name (states P) n else n)"
  have nm: "named_for (N old) m"
    unfolding m_def n[symmetric] using clean by (simp add: named_for_clean named_for_fresh)
  have pend: "\<forall>s\<in>fst ` set sched. F s = s" using Cons.prems(6) by auto
  have sub: "fst ` set sched \<subseteq> set (states P0)" using Cons.prems(5) by auto
  have nam: "\<forall>(old, n, t)\<in>set sched. n = N old" using Cons.prems(7) by auto
  have ok: "sched_ok sched" using Cons.prems(8) x by simp
  have fin: "\<And>s. s \<in> set (states P0) \<Longrightarrow> s \<noteq> old \<Longrightarrow> s \<notin> fst ` set sched \<Longrightarrow>
      \<exists>m. F s = Str m \<and> named_for (N s) m"
    using Cons.prems(9) x by auto
  show ?case
  proof (cases "Str m = old")
    case True
    then have "apply_renames P (x # sched) = apply_renames P sched"
      by (simp add: x m_def rename_state_same)
    moreover have "\<forall>s\<in>set (states P0) - fst ` set sched. \<exists>m. F s = Str m \<and> named_for (N s) m"
    proof
      fix s assume s: "s \<in> set (states P0) - fst ` set sched"
      show "\<exists>m. F s = Str m \<and> named_for (N s) m"
      proof (cases "s = old")
        case True
        with Fold \<open>Str m = old\<close> nm show ?thesis by auto
      next
        case False
        with s fin show ?thesis by auto
      qed
    qed
    ultimately show ?thesis
      using Cons.IH[OF ren inj wfP dist(2) sub pend nam ok] by simp
  next
    case False
    have fresh: "Str m \<notin> set (states P)"
    proof (cases t)
      case True
      then show ?thesis by (simp add: m_def fresh_name_fresh)
    next
      case nt: False
      then have mn: "m = n" by (simp add: m_def)
      from Cons.prems(8) x nt False mn have notpend: "Str n \<notin> fst ` set sched" by auto
      show ?thesis
      proof
        assume "Str m \<in> set (states P)"
        then obtain s1 where s1: "s1 \<in> set (states P0)" "F s1 = Str n"
          unfolding stP mn by auto
        show False
        proof (cases "s1 = old \<or> s1 \<in> fst ` set sched")
          case True
          then have "F s1 = s1" using Fold pend by auto
          with s1(2) True False mn notpend show False by auto
        next
          case c: False
          with fin[OF s1(1)] obtain m1 where m1: "F s1 = Str m1" "named_for (N s1) m1" by auto
          from m1(1) s1(2) have "m1 = n" by simp
          with m1(2) clean have "N s1 = n" by (simp add: named_for_def last_segment_clean)
          with n Ninj s1(1) old0 have "s1 = old" by (auto dest: inj_onD)
          with c show False by simp
        qed
      qed
    qed
    let ?r = "\<lambda>s. if s = old then Str m else s"
    from rename_state_fresh[OF wfP oldP fresh] obtain P1 where
      P1: "rename_state P old (Str m) = Inr P1" "renamed ?r P P1" "well_formed P1"
      by blast
    have ren1: "renamed (?r \<circ> F) P0 P1" using ren P1(2) by (rule renamed_comp)
    have inj1: "inj_on (?r \<circ> F) (set (states P0))"
      using inj rename_inj_on[OF fresh, of old] unfolding stP by (rule comp_inj_on)
    have pend1: "\<forall>s\<in>fst ` set sched. (?r \<circ> F) s = s"
      using pend dist(1) by auto
    have done1: "\<forall>s\<in>set (states P0) - fst ` set sched.
        \<exists>m. (?r \<circ> F) s = Str m \<and> named_for (N s) m"
    proof
      fix s assume s: "s \<in> set (states P0) - fst ` set sched"
      show "\<exists>m. (?r \<circ> F) s = Str m \<and> named_for (N s) m"
      proof (cases "s = old")
        case True
        with Fold nm show ?thesis by auto
      next
        case ne: False
        with s fin obtain m1 where m1: "F s = Str m1" "named_for (N s) m1" by auto
        have "F s \<noteq> old"
        proof
          assume "F s = old"
          with Fold have "F s = F old" by simp
          with inj s old0 have "s = old" by (auto dest: inj_onD)
          with ne show False by simp
        qed
        with m1 show ?thesis by auto
      qed
    qed
    have "apply_renames P (x # sched) = apply_renames P1 sched"
      using P1(1) by (simp add: x m_def)
    with Cons.IH[OF ren1 inj1 P1(3) dist(2) sub pend1 nam ok done1] show ?thesis by simp
  qed
qed

lemma strip_temps_correct:
  assumes wf0: "well_formed P0" and Ninj: "inj_on N (set (states P0))"
    and Nclean: "\<forall>s\<in>set (states P0). CHR '':'' \<notin> set (N s)"
  shows "renamed F P0 P \<Longrightarrow> inj_on F (set (states P0)) \<Longrightarrow> well_formed P \<Longrightarrow>
     distinct rest \<Longrightarrow> set rest \<subseteq> set (states P) \<Longrightarrow>
     (\<forall>s\<in>set (states P0). \<exists>m. F s = Str m \<and> last_segment m = N s \<and>
         (CHR '':'' \<notin> set m \<or> starts_with ''temp:'' m \<and> Str m \<in> set rest)) \<Longrightarrow>
     \<exists>P' F'. strip_temps P rest = Inr P' \<and> renamed F' P0 P' \<and>
        inj_on F' (set (states P0)) \<and> well_formed P' \<and>
        (\<forall>s\<in>set (states P0). F' s = Str (N s))"
proof (induction rest arbitrary: P F)
  case Nil
  have "\<forall>s\<in>set (states P0). F s = Str (N s)"
  proof
    fix s assume "s \<in> set (states P0)"
    with Nil.prems(6) obtain m where "F s = Str m" "last_segment m = N s" "CHR '':'' \<notin> set m"
      by auto
    then show "F s = Str (N s)" by (simp add: last_segment_clean)
  qed
  with Nil show ?case by auto
next
  case (Cons h rest)
  note ren = Cons.prems(1) and inj = Cons.prems(2) and wfP = Cons.prems(3)
  from ren have stP: "set (states P) = F ` set (states P0)" by (simp add: renamed_def)
  from Cons.prems(4) have dist: "h \<notin> set rest" "distinct rest" by auto
  from Cons.prems(5) have sub: "set rest \<subseteq> set (states P)" and hP: "h \<in> set (states P)" by auto
  note inv = Cons.prems(6)
  have skip: "\<exists>P' F'. strip_temps P rest = Inr P' \<and> renamed F' P0 P' \<and>
        inj_on F' (set (states P0)) \<and> well_formed P' \<and>
        (\<forall>s\<in>set (states P0). F' s = Str (N s))"
    if "\<And>hn. h = Str hn \<Longrightarrow> \<not> starts_with ''temp:'' hn"
  proof -
    have "\<forall>s\<in>set (states P0). \<exists>m. F s = Str m \<and> last_segment m = N s \<and>
         (CHR '':'' \<notin> set m \<or> starts_with ''temp:'' m \<and> Str m \<in> set rest)"
    proof
      fix s assume "s \<in> set (states P0)"
      with inv obtain m where m: "F s = Str m" "last_segment m = N s"
          "CHR '':'' \<notin> set m \<or> starts_with ''temp:'' m \<and> Str m \<in> set (h # rest)"
        by blast
      from m(3) that have "CHR '':'' \<notin> set m \<or> starts_with ''temp:'' m \<and> Str m \<in> set rest"
        by auto
      with m(1,2) show "\<exists>m. F s = Str m \<and> last_segment m = N s \<and>
         (CHR '':'' \<notin> set m \<or> starts_with ''temp:'' m \<and> Str m \<in> set rest)" by blast
    qed
    from Cons.IH[OF ren inj wfP dist(2) sub this] show ?thesis .
  qed
  show ?case
  proof (cases h)
    case (Obj x)
    with skip show ?thesis by simp
  next
    case (Str hn)
    show ?thesis
    proof (cases "starts_with ''temp:'' hn")
      case False
      with skip Str show ?thesis by simp
    next
      case True
      from hP Str obtain s0 where s0: "s0 \<in> set (states P0)" "F s0 = Str hn"
        unfolding stP by auto
      with inv have seg: "last_segment hn = N s0" by fastforce
      from Nclean s0(1) have c0: "CHR '':'' \<notin> set (N s0)" by auto
      have fresh: "Str (last_segment hn) \<notin> set (states P)"
      proof
        assume "Str (last_segment hn) \<in> set (states P)"
        then obtain s1 where s1: "s1 \<in> set (states P0)" "F s1 = Str (N s0)"
          unfolding stP seg by auto
        with inv obtain m1 where "F s1 = Str m1" "last_segment m1 = N s1" by blast
        with s1(2) c0 have "N s1 = N s0" by (simp add: last_segment_clean)
        with Ninj s1(1) s0(1) have "s1 = s0" by (auto dest: inj_onD)
        with s1(2) s0(2) have "hn = N s0" by simp
        with c0 starts_with_temp_colon[OF True] show False by simp
      qed
      let ?r = "\<lambda>s. if s = Str hn then Str (last_segment hn) else s"
      from hP Str have hP': "Str hn \<in> set (states P)" by simp
      from rename_state_fresh[OF wfP hP' fresh] obtain P1 where
        P1: "rename_state P (Str hn) (Str (last_segment hn)) = Inr P1" "renamed ?r P P1"
          "well_formed P1"
        by blast
      have ren1: "renamed (?r \<circ> F) P0 P1" using ren P1(2) by (rule renamed_comp)
      have inj1: "inj_on (?r \<circ> F) (set (states P0))"
        using inj rename_inj_on[OF fresh, of "Str hn"] unfolding stP by (rule comp_inj_on)
      from P1(2) have stP1: "set (states P1) = ?r ` set (states P)" by (simp add: renamed_def)
      have sub1: "set rest \<subseteq> set (states P1)"
      proof
        fix y assume y: "y \<in> set rest"
        with dist(1) Str have "y \<noteq> Str hn" by auto
        moreover from y sub have "y \<in> set (states P)" by auto
        ultimately show "y \<in> set (states P1)" unfolding stP1 by force
      qed
      have inv1: "\<forall>s\<in>set (states P0). \<exists>m. (?r \<circ> F) s = Str m \<and> last_segment m = N s \<and>
         (CHR '':'' \<notin> set m \<or> starts_with ''temp:'' m \<and> Str m \<in> set rest)"
      proof
        fix s assume s: "s \<in> set (states P0)"
        show "\<exists>m. (?r \<circ> F) s = Str m \<and> last_segment m = N s \<and>
         (CHR '':'' \<notin> set m \<or> starts_with ''temp:'' m \<and> Str m \<in> set rest)"
        proof (cases "s = s0")
          case True
          with s0(2) seg c0 show ?thesis by (simp add: last_segment_clean)
        next
          case False
          from inv s obtain m where m: "F s = Str m" "last_segment m = N s"
              "CHR '':'' \<notin> set m \<or> starts_with ''temp:'' m \<and> Str m \<in> set (h # rest)"
            by blast
          have "F s \<noteq> Str hn"
          proof
            assume "F s = Str hn"
            with s0(2) have "F s = F s0" by simp
            with inj s s0(1) have "s = s0" by (auto dest: inj_onD)
            with False show False by simp
          qed
          with m Str show ?thesis by auto
        qed
      qed
      have "strip_temps P (h # rest) = strip_temps P1 rest"
        using P1(1) True Str by simp
      with Cons.IH[OF ren1 inj1 P1(3) dist(2) sub1 inv1] show ?thesis by simp
    qed
  qed
qed

lemma fst_dict_del: "fst ` set (dict_del k d) = fst ` set d - {k}"
  by (auto simp: dict_del_def image_iff)

lemma set_dict_del:
  "distinct (map fst d) \<Longrightarrow> (k, v) \<in> set d \<Longrightarrow> set (dict_del k d) = set d - {(k, v)}"
  by (auto simp: dict_del_def dest: eq_key_imp_eq_value)

lemma distinct_dict_del: "distinct (map fst d) \<Longrightarrow> distinct (map fst (dict_del k d))"
  by (simp add: dict_del_def distinct_map_filter)

lemma new_names_fold:
  "distinct (map snd xs) \<Longrightarrow> snd ` set xs \<inter> fst ` set acc = {} \<Longrightarrow>
   foldl (\<lambda>names (i, state).
            if \<not> dict_mem state names then dict_set state (''q'' @ str_nat (i + 1)) names
            else names) acc xs
     = acc @ map (\<lambda>(i, s). (s, ''q'' @ str_nat (i + 1))) xs"
proof (induction xs arbitrary: acc)
  case Nil
  then show ?case by simp
next
  case (Cons x xs)
  obtain i s where x: "x = (i, s)" by (cases x) auto
  from Cons.prems x have fresh: "\<not> dict_mem s acc" by (auto simp: dict_mem_iff)
  from Cons.prems x have d: "distinct (map snd xs)" and s: "s \<notin> snd ` set xs" by auto
  have "snd ` set xs \<inter> fst ` set (acc @ [(s, ''q'' @ str_nat (i + 1))]) = {}"
    using Cons.prems(2) s by auto
  from Cons.IH[OF d this] fresh show ?case
    by (simp add: x dict_set_fresh)
qed

lemma map_snd_enumerate: "map snd (enumerate n xs) = xs"
  by (induction xs arbitrary: n) auto

lemma new_names_eq:
  assumes "distinct (states P)"
  shows "new_names P =
     (case initial_state P of None \<Rightarrow> [] | Some q0 \<Rightarrow> [(q0, ''q0'')]) @
     map (\<lambda>(i, s). (s, ''q'' @ str_nat (i + 1))) (enumerate 0 (other_states P))"
  unfolding new_names_def other_states_def[symmetric]
proof (rule new_names_fold)
  show "distinct (map snd (enumerate 0 (other_states P)))"
    using assms by (simp add: map_snd_enumerate other_states_def)
  show "snd ` set (enumerate 0 (other_states P)) \<inter>
      fst ` set (case initial_state P of None \<Rightarrow> [] | Some q0 \<Rightarrow> [(q0, ''q0'')]) = {}"
  proof -
    have "snd ` set (enumerate 0 (other_states P)) = set (other_states P)"
      by (metis map_snd_enumerate set_map)
    then show ?thesis by (auto simp: other_states_def split: option.splits)
  qed
qed

lemma map_fst_numbered:
  "map fst (map (\<lambda>(i, s). (s, g i)) (enumerate n xs)) = xs"
  by (induction xs arbitrary: n) auto

lemma new_names_keys:
  assumes "distinct (states P)"
  shows "map fst (new_names P) =
     (case initial_state P of None \<Rightarrow> [] | Some q0 \<Rightarrow> [q0]) @ other_states P"
  by (simp add: new_names_eq[OF assms] map_fst_numbered del: map_map split: option.splits)

lemma new_names_keys_distinct:
  assumes "distinct (states P)"
  shows "distinct (map fst (new_names P))"
  unfolding new_names_keys[OF assms]
  using assms by (auto simp: other_states_def split: option.splits)

lemma new_names_keys_set:
  assumes "distinct (states P)" "initial_registered P"
  shows "fst ` set (new_names P) = set (states P)"
proof -
  have "fst ` set (new_names P) = set (map fst (new_names P))" by simp
  also have "\<dots> = set (states P)"
    unfolding new_names_keys[OF assms(1)]
    using assms(2) by (auto simp: other_states_def initial_registered_def split: option.splits)
  finally show ?thesis .
qed

lemma new_names_values:
  assumes "distinct (states P)" and "(s, n) \<in> set (new_names P)"
  shows "(initial_state P = Some s \<and> n = ''q0'') \<or>
     (\<exists>i < length (other_states P). other_states P ! i = s \<and> n = ''q'' @ str_nat (i + 1))"
  using assms(2) unfolding new_names_eq[OF assms(1)]
  by (auto simp: in_set_enumerate_eq split: option.splits)

lemma str_nat_Suc_not_0: "str_nat (Suc i) \<noteq> ''0''"
proof
  assume "str_nat (Suc i) = ''0''"
  then have "str_nat (Suc i) = str_nat 0" by (simp add: str_nat_0)
  then show False using str_nat_inj by blast
qed

lemma new_names_inj:
  assumes d: "distinct (states P)"
    and a: "(s, n) \<in> set (new_names P)" and b: "(s', n) \<in> set (new_names P)"
  shows "s = s'"
proof -
  have od: "distinct (other_states P)" using d by (simp add: other_states_def)
  from new_names_values[OF d a] new_names_values[OF d b] show ?thesis
  proof (elim disjE conjE exE)
    assume "initial_state P = Some s" "initial_state P = Some s'"
    then show ?thesis by simp
  next
    fix i assume "n = ''q0''" "n = ''q'' @ str_nat (i + 1)"
    then show ?thesis using str_nat_Suc_not_0[of i] by simp
  next
    fix i assume "n = ''q'' @ str_nat (i + 1)" "n = ''q0''"
    then show ?thesis using str_nat_Suc_not_0[of i] by simp
  next
    fix i j assume "i < length (other_states P)" "other_states P ! i = s"
      "n = ''q'' @ str_nat (i + 1)" "j < length (other_states P)" "other_states P ! j = s'"
      "n = ''q'' @ str_nat (j + 1)"
    then show ?thesis using str_nat_inj[of "i + 1" "j + 1"] by auto
  qed
qed

lemma new_names_clean:
  assumes d: "distinct (states P)" and a: "(s, n) \<in> set (new_names P)"
  shows "CHR '':'' \<notin> set n"
  using new_names_values[OF d a] colon_notin_str_nat by auto

lemma new_name_of_mem:
  assumes d: "distinct (states P)" and a: "(s, n) \<in> set (new_names P)"
  shows "new_name_of P s = n"
  using map_of_is_SomeI[OF new_names_keys_distinct[OF d] a] by (simp add: new_name_of_def)

lemma new_name_of_in:
  assumes d: "distinct (states P)" and r: "initial_registered P" and s: "s \<in> set (states P)"
  shows "(s, new_name_of P s) \<in> set (new_names P)"
proof -
  from s new_names_keys_set[OF d r] obtain n where n: "(s, n) \<in> set (new_names P)" by force
  with new_name_of_mem[OF d n] show ?thesis by simp
qed

lemma sched_keys:
  "fst ` (\<lambda>(old, n, t). (old, n)) ` set sched = fst ` set sched"
proof -
  have "map fst (map (\<lambda>(old, n, t). (old, n)) sched) = map fst sched"
    by (induction sched) auto
  then have "set (map fst (map (\<lambda>(old, n, t). (old, n)) sched)) = set (map fst sched)"
    by (rule arg_cong)
  then show ?thesis unfolding set_map .
qed

lemma order_renames_step:
  assumes dn: "distinct (map fst names)" and kv: "(k, v) \<in> set names"
    and a: "(\<lambda>(old, n, t). (old, n)) ` set rest = set (dict_del k names)"
    and b: "distinct (map fst rest)" and c: "sched_ok rest"
    and okh: "t \<or> k = Str v \<or> \<not> dict_mem (Str v) names"
  shows "(\<lambda>(old, n, t). (old, n)) ` set ((k, v, t) # rest) = set names \<and>
       distinct (map fst ((k, v, t) # rest)) \<and> sched_ok ((k, v, t) # rest)"
proof -
  have "fst ` set rest = fst ` (\<lambda>(old, n, t). (old, n)) ` set rest"
    by (rule sched_keys[symmetric])
  also have "\<dots> = fst ` set (dict_del k names)" by (rule arg_cong[OF a])
  also have "\<dots> = fst ` set names - {k}" by (rule fst_dict_del)
  finally have keys: "fst ` set rest = fst ` set names - {k}" .
  have "(\<lambda>(old, n, t). (old, n)) ` set ((k, v, t) # rest) =
      insert (k, v) ((\<lambda>(old, n, t). (old, n)) ` set rest)"
    by simp
  also have "\<dots> = insert (k, v) (set names - {(k, v)})"
    unfolding a set_dict_del[OF dn kv] ..
  also have "\<dots> = set names" using kv by blast
  finally have 1: "(\<lambda>(old, n, t). (old, n)) ` set ((k, v, t) # rest) = set names" .
  have "k \<notin> fst ` set rest" unfolding keys by simp
  then have 2: "distinct (map fst ((k, v, t) # rest))" using b by simp
  have "t \<or> k = Str v \<or> Str v \<notin> fst ` set rest"
    using okh unfolding keys dict_mem_iff by blast
  then have 3: "sched_ok ((k, v, t) # rest)" using c by simp
  from 1 2 3 show ?thesis by blast
qed

lemma find_Some_mem: "find p xs = Some x \<Longrightarrow> x \<in> set xs \<and> p x"
  by (induction xs) (auto split: if_splits)

lemma order_renames_props:
  "distinct (map fst names) \<Longrightarrow>
     (\<lambda>(old, n, t). (old, n)) ` set (order_renames names) = set names \<and>
     distinct (map fst (order_renames names)) \<and> sched_ok (order_renames names)"
proof (induction names rule: order_renames.induct)
  case (1 names)
  let ?f = "find (\<lambda>(old_name, new_name).
               old_name = Str new_name \<or> \<not> dict_mem (Str new_name) names) names"
  show ?case
  proof (cases "names = []")
    case True
    have "order_renames names = []" by (subst order_renames.simps) (simp only: True if_True simp_thms)
    then show ?thesis using True by simp
  next
    case ne: False
    show ?thesis
    proof (cases ?f)
      case None
      have hd: "(fst (hd names), snd (hd names)) \<in> set names" using ne by simp
      have eq: "order_renames names =
          (fst (hd names), snd (hd names), True) # order_renames (dict_del (fst (hd names)) names)"
        by (subst order_renames.simps) (simp only: ne None if_False option.case simp_thms)
      note ih = "1.IH"(1)[OF ne None distinct_dict_del[OF "1.prems"]]
      show ?thesis unfolding eq
        by (rule order_renames_step[OF "1.prems" hd conjunct1[OF ih]
              conjunct1[OF conjunct2[OF ih]] conjunct2[OF conjunct2[OF ih]]]) simp
    next
      case (Some x)
      obtain k v where x: "x = (k, v)" by (cases x) auto
      note fm = find_Some_mem[OF Some]
      from fm have px: "(\<lambda>(old_name, new_name).
               old_name = Str new_name \<or> \<not> dict_mem (Str new_name) names) x" by (rule conjunct2)
      from fm have "x \<in> set names" by (rule conjunct1)
      then have kv: "(k, v) \<in> set names" by (simp add: x)
      from px have okh: "False \<or> k = Str v \<or> \<not> dict_mem (Str v) names" by (simp add: x)
      have eq: "order_renames names = (k, v, False) # order_renames (dict_del k names)"
        by (subst order_renames.simps) (simp only: ne Some x if_False option.case prod.case simp_thms)
      note ih = "1.IH"(2)[OF ne Some x[symmetric] distinct_dict_del[OF "1.prems"]]
      show ?thesis unfolding eq
        by (rule order_renames_step[OF "1.prems" kv conjunct1[OF ih]
              conjunct1[OF conjunct2[OF ih]] conjunct2[OF conjunct2[OF ih]] okh])
    qed
  qed
qed

lemma normalize_states_correct:
  assumes wf: "well_formed P"
  shows "\<exists>P' F. normalize_states P = Inr P' \<and> renamed F P P' \<and>
     inj_on F (set (states P)) \<and> well_formed P' \<and>
     (\<forall>s\<in>set (states P). F s = Str (new_name_of P s))"
proof -
  let ?N = "new_name_of P"
  let ?names = "new_names P"
  let ?sched = "order_renames ?names"
  from wf have d: "distinct (states P)" and r: "initial_registered P"
    by (simp_all add: well_formed_def duplicate_free_def)
  note kd = new_names_keys_distinct[OF d]
  note props = order_renames_props[OF kd]
  have Ninj: "inj_on ?N (set (states P))"
  proof (rule inj_onI)
    fix s s' assume "s \<in> set (states P)" "s' \<in> set (states P)" "?N s = ?N s'"
    with new_name_of_in[OF d r, of s] new_name_of_in[OF d r, of s'] new_names_inj[OF d]
    show "s = s'" by metis
  qed
  have Nclean: "\<forall>s\<in>set (states P). CHR '':'' \<notin> set (?N s)"
    using new_name_of_in[OF d r] new_names_clean[OF d] by blast
  have keys: "fst ` set ?sched = set (states P)"
  proof -
    have "fst ` set ?sched = fst ` (\<lambda>(old, n, t). (old, n)) ` set ?sched"
      by (rule sched_keys[symmetric])
    also have "\<dots> = fst ` set ?names" by (rule arg_cong[OF conjunct1[OF props]])
    also have "\<dots> = set (states P)" by (rule new_names_keys_set[OF d r])
    finally show ?thesis .
  qed
  have nam: "\<forall>(old, n, t)\<in>set ?sched. n = ?N old"
  proof (clarify)
    fix old n t assume "(old, n, t) \<in> set ?sched"
    then have "(old, n) \<in> (\<lambda>(old, n, t). (old, n)) ` set ?sched" by force
    with props have "(old, n) \<in> set ?names" by simp
    from new_name_of_mem[OF d this] show "n = ?N old" by simp
  qed
  have "\<exists>P1 F1. apply_renames P ?sched = Inr P1 \<and> renamed F1 P P1 \<and>
        inj_on F1 (set (states P)) \<and> well_formed P1 \<and>
        (\<forall>s\<in>set (states P). \<exists>m. F1 s = Str m \<and> named_for (?N s) m)"
    using props keys nam
    by (intro apply_renames_correct[OF wf Ninj Nclean renamed_refl _ wf]) auto
  then obtain P1 F1 where P1: "apply_renames P ?sched = Inr P1" "renamed F1 P P1"
      "inj_on F1 (set (states P))" "well_formed P1"
      "\<forall>s\<in>set (states P). \<exists>m. F1 s = Str m \<and> named_for (?N s) m"
    by blast
  from P1(2) have st1: "set (states P1) = F1 ` set (states P)" by (simp add: renamed_def)
  from P1(4) have d1: "distinct (states P1)" by (simp add: well_formed_def duplicate_free_def)
  have inv: "\<forall>s\<in>set (states P). \<exists>m. F1 s = Str m \<and> last_segment m = ?N s \<and>
         (CHR '':'' \<notin> set m \<or> starts_with ''temp:'' m \<and> Str m \<in> set (states P1))"
  proof
    fix s assume s: "s \<in> set (states P)"
    with P1(5) obtain m where m: "F1 s = Str m" "named_for (?N s) m" by blast
    from m(1) s st1 have "Str m \<in> set (states P1)" by force
    with m show "\<exists>m. F1 s = Str m \<and> last_segment m = ?N s \<and>
         (CHR '':'' \<notin> set m \<or> starts_with ''temp:'' m \<and> Str m \<in> set (states P1))"
      by (auto simp: named_for_def)
  qed
  from strip_temps_correct[OF wf Ninj Nclean P1(2,3,4) d1 subset_refl inv]
  obtain P' F' where "strip_temps P1 (states P1) = Inr P'" "renamed F' P P'"
    "inj_on F' (set (states P))" "well_formed P'" "\<forall>s\<in>set (states P). F' s = Str (?N s)"
    by blast
  with P1(1) show ?thesis by (auto simp: normalize_states_def)
qed

lemma new_name_of_initial:
  assumes "distinct (states P)" "initial_state P = Some q0"
  shows "new_name_of P q0 = ''q0''"
proof -
  have "(q0, ''q0'') \<in> set (new_names P)"
    by (simp add: new_names_eq[OF assms(1)] assms(2))
  from new_name_of_mem[OF assms(1) this] show ?thesis .
qed


section \<open>The test automata, evaluated\<close>

lemma reference_build: "build AP_init reference_ops = Inr reference_P"
  by code_simp

lemma reference_crear: "crear_automata_complemento reference_P = Inr reference_C"
  by code_simp

lemma reference_built: "built reference_P"
  unfolding built_def using reference_build by blast

lemma reference_initial:
  "initial_state reference_P = Some ''q0''"
  "''q0'' \<in> set (states reference_P)"
  "initial_stack_symbol reference_P \<in> set (stack_alphabet reference_P)"
  by code_simp+

lemma reference_accepts:
  "accepts reference_P ''ab'' ''final_state''"
  "\<not> accepts reference_C ''ab'' ''final_state''"
  "\<not> accepts reference_P '''' ''final_state''"
  "accepts reference_C '''' ''final_state''"
  "\<not> accepts reference_P ''aabb'' ''final_state''"
  "accepts reference_C ''aabb'' ''final_state''"
  by code_simp+

lemma reference_rests: "rests_after reference_P 4 ''q0'' ''aabb''"
  by code_simp

lemma reference_first_move:
  "get_transition reference_P ''q0'' (Some CHR ''a'') CHR ''Z'' = Some (''q1'', ''AZ'')"
  by code_simp

lemma anbn_build: "build AP_init anbn_ops = Inr anbn_P"
  by code_simp

lemma anbn_crear: "crear_automata_complemento anbn_P = Inr anbn_C"
  by code_simp

lemma anbn_built: "built anbn_P"
  unfolding built_def using anbn_build by blast

lemma anbn_initial:
  "initial_state anbn_P = Some ''q0''"
  "''q0'' \<in> set (states anbn_P)"
  "''q1'' \<in> set (states anbn_P)"
  by code_simp+

lemma anbn_lambda: "dict_mem (''q1'', None, CHR ''Z'') (transitions anbn_P)"
  by code_simp


lemma swap_build: "build AP_init swap_ops = Inr swap_P"
  by code_simp

lemma swap_built: "built swap_P"
  unfolding built_def using swap_build by blast

lemma swap_initial: "initial_state swap_P = Some (Str ''q1'')"
  by code_simp

lemma swap_normalize:
  "normalize_states swap_P =
     Inr \<lparr>states = [Str ''q1'', Str ''q0''], initial_state = Some (Str ''q0''),
          final_states = [Str ''q1''],
          transitions = [((Str ''q0'', Some CHR ''a'', CHR ''Z''), Str ''q1'', ''Z'')],
          input_alphabet = input_alphabet swap_P, stack_alphabet = stack_alphabet swap_P,
          initial_stack_symbol = initial_stack_symbol swap_P\<rparr>"
  by code_simp

section \<open>The execution engine\<close>

text \<open>
  Claim C7.  \<open>step\<close> returns no move on the empty stack.  On a stack whose last element is
  \<open>stack_top\<close>: if input remains and the table has a transition for the state, the first
  input symbol and \<open>stack_top\<close>, that transition is taken, \<open>stack_top\<close> is popped, the push
  string is appended in reverse and the symbol is consumed; otherwise the \<open>\<lambda>\<close>-transition
  for the state and \<open>stack_top\<close>, if there is one, is taken in the same way and the input is
  kept; otherwise there is no move.  With push string \<open>AZ\<close> on a stack whose top is \<open>Z\<close>
  the new top is \<open>A\<close> and \<open>Z\<close> lies directly below it.
\<close>

theorem step_characterisation:
  "step P state remaining_input [] = None \<and>
   step P state remaining_input (stack @ [stack_top]) =
     (case remaining_input of
        [] \<Rightarrow>
          (case get_transition P state None stack_top of
             Some (p, push) \<Rightarrow> Some (p, remaining_input, stack @ rev push)
           | None \<Rightarrow> None)
      | a # rest \<Rightarrow>
          (case get_transition P state (Some a) stack_top of
             Some (p, push) \<Rightarrow> Some (p, rest, stack @ rev push)
           | None \<Rightarrow>
               (case get_transition P state None stack_top of
                  Some (p, push) \<Rightarrow> Some (p, remaining_input, stack @ rev push)
                | None \<Rightarrow> None))) \<and>
   (get_transition P state (Some b) CHR ''Z'' = Some (q, ''AZ'') \<longrightarrow>
      (\<exists>stack'. step P state (b # word) (stack @ ''Z'') = Some (q, word, stack') \<and>
         last stack' = CHR ''A'' \<and> last (butlast stack') = CHR ''Z''))"
  by (simp add: step_snoc butlast_append) (simp add: step_def)

theorem step_characterisation_witness:
  "get_transition reference_P ''q0'' (Some CHR ''a'') CHR ''Z'' = Some (''q1'', ''AZ'') \<and>
   (\<exists>stack'. step reference_P ''q0'' ''ab'' ('''' @ ''Z'') = Some (''q1'', ''b'', stack') \<and>
      last stack' = CHR ''A'' \<and> last (butlast stack') = CHR ''Z'')"
  using step_characterisation[of reference_P "''q0''" "''ab''" "''''" "CHR ''Z''"
      "CHR ''a''" "''q1''" "''b''"] reference_first_move
  by blast

text \<open>
  Claim C4.  \<open>accepts\<close> evaluates the acceptance test of the chosen mode on every
  configuration of the run, the initial one included, accepts as soon as the test holds,
  tests the last configuration once more when \<open>step\<close> has no move, and looks at no
  configuration beyond \<open>max_steps\<close> steps: the word is accepted exactly when one of the
  first \<open>max_steps word + 1\<close> configurations of the run passes the test.
\<close>

theorem accepts_characterisation:
  "initial_state P = Some q0 \<Longrightarrow>
   accepts P word acceptance_mode =
     (\<exists>n\<le>max_steps word. \<exists>c.
        run P n (q0, word, [initial_stack_symbol P]) = Some c \<and>
        accepting_configuration P acceptance_mode c)"
  by (simp add: accepts_def accepts_loop_run)

theorem accepts_characterisation_witness:
  "initial_state reference_P = Some ''q0'' \<and>
   accepts reference_P ''ab'' ''final_state'' =
     (\<exists>n\<le>max_steps ''ab''. \<exists>c.
        run reference_P n (''q0'', ''ab'', [initial_stack_symbol reference_P]) = Some c \<and>
        accepting_configuration reference_P ''final_state'' c)"
  using accepts_characterisation[OF reference_initial(1), of "''ab''" "''final_state''"]
    reference_initial(1)
  by blast

text \<open>
  Claim C5, as the code has it.  \<open>accepts\<close> never raises: with a mode that is neither
  \<open>final_state\<close> nor \<open>empty_stack\<close> it returns \<open>False\<close> for every word.
\<close>

theorem accepts_unknown_mode:
  "acceptance_mode \<noteq> ''final_state'' \<Longrightarrow> acceptance_mode \<noteq> ''empty_stack'' \<Longrightarrow>
   accepts P word acceptance_mode = False"
  by (simp add: accepts_def unknown_mode_loop split: option.splits)

theorem accepts_unknown_mode_witness:
  "''longest_match'' \<noteq> ''final_state'' \<and> ''longest_match'' \<noteq> ''empty_stack'' \<and>
   accepts reference_P ''ab'' ''longest_match'' = False"
  using accepts_unknown_mode[of "''longest_match''" reference_P "''ab''"]
  by simp

theorem accepts_unknown_mode_counterexample:
  "accepts_outcome reference_P ''ab'' ''longest_match'' = Inr False"
  by code_simp

section \<open>The builder\<close>

text \<open>
  Claim C6.  On an automaton made by the builder, with both endpoints registered,
  \<open>add_transition\<close> raises one of its three determinism conflicts exactly when the key is
  already in the table, or a symbol is to be read where a \<open>\<lambda>\<close>-transition exists for the
  same state and stack top, or a \<open>\<lambda>\<close>-transition is added where some symbol-reading
  transition exists for the same state and stack top; otherwise the transition is stored.
\<close>

theorem add_transition_conflict_iff:
  assumes "built P" and "state \<in> set (states P)" and "new_state \<in> set (states P)"
  shows "(raises_conflict (add_transition P state new_state a X w) \<longleftrightarrow>
            dict_mem (state, a, X) (transitions P) \<or>
            (a \<noteq> None \<and> dict_mem (state, None, X) (transitions P)) \<or>
            (a = None \<and> (\<exists>c. dict_mem (state, Some c, X) (transitions P)))) \<and>
         (\<not> raises_conflict (add_transition P state new_state a X w) \<longrightarrow>
            (\<exists>P'. add_transition P state new_state a X w = Inr P' \<and>
                  get_transition P' state a X = Some (new_state, w)))"
proof -
  from built_invariant[OF assms(1)] have sr: "symbols_registered P"
    by (simp add: well_formed_def)
  have ex: "list_ex (\<lambda>symbol. dict_mem (state, Some symbol, X) (transitions P)) (input_alphabet P)
      \<longleftrightarrow> (\<exists>c. dict_mem (state, Some c, X) (transitions P))"
    using symbols_registeredD[OF sr] by (auto simp: list_ex_iff)
  show ?thesis
    using assms(2,3) ex
    by (auto simp: add_transition_def raises_conflict_def get_transition_def map_of_dict_set)
qed

theorem add_transition_conflict_iff_witness:
  "built anbn_P \<and> ''q1'' \<in> set (states anbn_P) \<and> ''q0'' \<in> set (states anbn_P) \<and>
   raises_conflict (add_transition anbn_P ''q1'' ''q0'' (Some CHR ''a'') CHR ''Z'' ''Z'')"
  using add_transition_conflict_iff[OF anbn_built anbn_initial(3) anbn_initial(2),
      of "Some CHR ''a''" "CHR ''Z''" "''Z''"]
    anbn_built anbn_initial anbn_lambda
  by simp

section \<open>The complement constructor\<close>

text \<open>
  Claim C2.  When \<open>crear_automata_complemento\<close> returns \<open>C\<close>, the states of \<open>C\<close> are the pairs
  \<open>(q, 0)\<close>, \<open>(q, 1)\<close>, \<open>(q, 2)\<close> for the states \<open>q\<close> of the source, the final ones are the pairs
  \<open>(q, 2)\<close>, the initial state is \<open>(q0, 1)\<close> if the initial state \<open>q0\<close> of the source is
  final and \<open>(q0, 0)\<close> otherwise, and the table holds the transitions of rules (i), (ii)
  and (iii) and nothing else, one per key.  Rule (iii) gives \<open>(q, 0)\<close> a \<open>\<lambda>\<close>-transition to
  \<open>(q, 2)\<close> that puts \<open>X\<close> back exactly for the states \<open>q\<close> and stack symbols \<open>X\<close> of the
  source without a \<open>\<lambda>\<close>-transition on \<open>(q, X)\<close>, and no transition leads from a state with
  marker 1 to a state with marker 2.
\<close>

theorem complement_structure:
  assumes "crear_automata_complemento P = Inr C"
  shows "set (states C) = set (states P) \<times> {0, 1, 2} \<and>
     set (final_states C) = set (states P) \<times> {2} \<and>
     (\<exists>q0. initial_state P = Some q0 \<and>
        initial_state C = Some (q0, if q0 \<in> set (final_states P) then 1 else 0)) \<and>
     set (transitions C) =
       rule_i_set P (transitions P) \<union> rule_ii_set P (transitions P) \<union>
       rule_iii_set P (states P) (stack_alphabet P) \<and>
     distinct (map fst (transitions C)) \<and>
     (\<forall>q X. (((q, 0), None, X), ((q, 2), [X])) \<in> set (transitions C) \<longleftrightarrow>
        q \<in> set (states P) \<and> X \<in> set (stack_alphabet P) \<and>
        \<not> dict_mem (q, None, X) (transitions P)) \<and>
     (\<forall>q a X p s. (((q, 1), a, X), ((p, 2), s)) \<notin> set (transitions C))"
proof -
  note r = crear_automata_complemento_Inr[OF assms]
  have sink: "(((q, 0), None, X), ((q, 2), [X])) \<in> set (transitions C) \<longleftrightarrow>
        q \<in> set (states P) \<and> X \<in> set (stack_alphabet P) \<and>
        \<not> dict_mem (q, None, X) (transitions P)" for q X
    unfolding r(5) by (auto simp: rule_i_set_def rule_ii_set_def rule_iii_set_def final_index_def)
  have marker1: "(((q, 1), a, X), ((p, 2), s)) \<notin> set (transitions C)" for q a X p s
    unfolding r(5) by (auto simp: rule_i_set_def rule_ii_set_def rule_iii_set_def final_index_def)
  from r(3) have "\<exists>q0. initial_state P = Some q0 \<and>
        initial_state C = Some (q0, if q0 \<in> set (final_states P) then 1 else 0)"
    by (auto simp: final_index_def)
  with r(1,2,5,6) sink marker1 show ?thesis by blast
qed

theorem complement_structure_witness:
  "crear_automata_complemento anbn_P = Inr anbn_C \<and>
   set (states anbn_C) = set (states anbn_P) \<times> {0, 1, 2} \<and>
   set (final_states anbn_C) = set (states anbn_P) \<times> {2} \<and>
   distinct (map fst (transitions anbn_C))"
  using complement_structure[OF anbn_crear] anbn_crear by blast

text \<open>
  Claim C9, as the code has it.  For a source whose initial state has been marked and is
  registered, whose table satisfies the determinism invariant and whose transitions join
  registered states, the constructor never raises, and the automaton it returns satisfies
  the determinism invariant again.
\<close>

theorem complement_never_raises:
  assumes "duplicate_free P" and "endpoints_registered P" and "deterministic_table P"
    and "initial_state P = Some q0" and "q0 \<in> set (states P)"
  shows "\<exists>C. crear_automata_complemento P = Inr C \<and> deterministic_table C \<and>
           is_deterministic C"
proof -
  from crear_automata_complemento_succeeds[OF assms]
  obtain C where C: "crear_automata_complemento P = Inr C" ..
  from complement_deterministic[OF C assms(3)] have "deterministic_table C" .
  with C is_deterministic_if_table show ?thesis by blast
qed

theorem complement_never_raises_witness:
  "duplicate_free anbn_P \<and> endpoints_registered anbn_P \<and> deterministic_table anbn_P \<and>
   initial_state anbn_P = Some ''q0'' \<and> ''q0'' \<in> set (states anbn_P) \<and>
   (\<exists>C. crear_automata_complemento anbn_P = Inr C \<and> deterministic_table C \<and>
      is_deterministic C)"
proof -
  from built_invariant[OF anbn_built]
  have h: "duplicate_free anbn_P" "endpoints_registered anbn_P" "deterministic_table anbn_P"
    by (simp_all add: well_formed_def)
  from complement_never_raises[OF h anbn_initial(1,2)] h anbn_initial(1,2)
  show ?thesis by blast
qed

theorem complement_unmarked_counterexample:
  "duplicate_free unmarked_P \<and> endpoints_registered unmarked_P \<and>
   deterministic_table unmarked_P \<and>
   crear_automata_complemento unmarked_P = Inl (ValueError StateNotPresent)"
  by code_simp

text \<open>
  Claim C1, as the code has it.  Let \<open>P\<close> be made by the builder, with its initial stack
  symbol in its stack alphabet, and let the run of \<open>P\<close> on \<open>word\<close> read the whole word and
  then come to rest, with a stack that is not empty and no move left, after at most
  \<open>99 * length word + 999\<close> steps.  Then the constructor returns an automaton \<open>C\<close>, and
  \<open>C\<close> accepts \<open>word\<close> by final state exactly when \<open>P\<close> does not.  For the reference
  automaton of the language \<open>a\<^sup>n b\<close>: \<open>P\<close> accepts \<open>ab\<close> and \<open>C\<close> rejects it, \<open>P\<close> rejects the
  empty word and \<open>C\<close> accepts it, \<open>P\<close> rejects \<open>aabb\<close> and \<open>C\<close> accepts it.
\<close>

theorem complement_accepts:
  assumes "built P" and "initial_stack_symbol P \<in> set (stack_alphabet P)"
    and "initial_state P = Some q0" and "rests_after P n q0 word"
    and "n \<le> 99 * length word + 999"
  shows "(\<exists>C. crear_automata_complemento P = Inr C \<and>
            accepts C word ''final_state'' = (\<not> accepts P word ''final_state'')) \<and>
         crear_automata_complemento reference_P = Inr reference_C \<and>
         accepts reference_P ''ab'' ''final_state'' \<and>
         \<not> accepts reference_C ''ab'' ''final_state'' \<and>
         \<not> accepts reference_P '''' ''final_state'' \<and>
         accepts reference_C '''' ''final_state'' \<and>
         \<not> accepts reference_P ''aabb'' ''final_state'' \<and>
         accepts reference_C ''aabb'' ''final_state''"
proof -
  from built_invariant[OF assms(1)]
  have wf: "duplicate_free P" "endpoints_registered P" "symbols_registered P"
      "initial_registered P" and det: "deterministic_table P"
    by (simp_all add: well_formed_def)
  from wf(4) assms(3) have q0: "q0 \<in> set (states P)"
    by (simp add: initial_registered_def)
  from crear_automata_complemento_succeeds[OF wf(1,2) det assms(3) q0]
  obtain C where C: "crear_automata_complemento P = Inr C" ..
  with wf(1) have co: "complement_of P C"
    by (simp add: complement_of_def duplicate_free_def)
  from complement_accepts_general[OF co det wf(2,3) assms(2,3,4,5)] C
  have "\<exists>C. crear_automata_complemento P = Inr C \<and>
            accepts C word ''final_state'' = (\<not> accepts P word ''final_state'')"
    by blast
  with reference_crear reference_accepts show ?thesis by blast
qed

theorem complement_accepts_witness:
  "built reference_P \<and>
   initial_stack_symbol reference_P \<in> set (stack_alphabet reference_P) \<and>
   initial_state reference_P = Some ''q0'' \<and> rests_after reference_P 4 ''q0'' ''aabb'' \<and>
   (4::nat) \<le> 99 * length ''aabb'' + 999 \<and>
   (\<exists>C. crear_automata_complemento reference_P = Inr C \<and>
      accepts C ''aabb'' ''final_state'' = (\<not> accepts reference_P ''aabb'' ''final_state''))"
proof -
  have b: "(4::nat) \<le> 99 * length ''aabb'' + 999" by simp
  from complement_accepts[OF reference_built reference_initial(3) reference_initial(1)
      reference_rests b]
    reference_built reference_initial reference_rests b
  show ?thesis by blast
qed

theorem complement_lambda_loop_counterexample:
  "build AP_init lambda_loop_ops = Inr lambda_loop_P \<and>
   crear_automata_complemento lambda_loop_P = Inr lambda_loop_C \<and>
   step lambda_loop_P ''q0'' '''' ''Z'' = Some (''q0'', '''', ''Z'') \<and>
   accepts lambda_loop_P '''' ''final_state'' = False \<and>
   accepts lambda_loop_C '''' ''final_state'' = False"
  by code_simp


text \<open>
  Claim C8.  For every automaton with a marked initial state, \<open>normalize_states\<close> returns
  (its loops end and no rename raises), whatever renames its table of new names induces,
  cycles among them included.  The automaton it returns is the original one with every
  state \<open>q\<close> replaced by \<open>F q\<close>, for a renaming \<open>F\<close> that is injective on the states and sends
  the initial state to \<open>q0\<close>, and it accepts the same words as the original, for every word
  and every acceptance mode.  The automaton is one that satisfies the invariants every
  automaton built through the interface satisfies.
\<close>

theorem normalize_states_relabels:
  assumes "well_formed P" and "initial_state P = Some q0"
  shows "\<exists>P' F. normalize_states P = Inr P' \<and> renamed F P P' \<and>
     inj_on F (set (states P)) \<and> F q0 = Str ''q0'' \<and>
     initial_state P' = Some (Str ''q0'') \<and>
     (\<forall>word acceptance_mode.
        accepts P' word acceptance_mode = accepts P word acceptance_mode)"
proof -
  from assms(1) have d: "distinct (states P)" and r: "initial_registered P"
    by (simp_all add: well_formed_def duplicate_free_def)
  from r assms(2) have q0: "q0 \<in> set (states P)" by (simp add: initial_registered_def)
  from normalize_states_correct[OF assms(1)] obtain P' F where
    n: "normalize_states P = Inr P'" and ren: "renamed F P P'"
    and inj: "inj_on F (set (states P))" and wf': "well_formed P'"
    and F: "\<forall>s\<in>set (states P). F s = Str (new_name_of P s)"
    by blast
  from F q0 new_name_of_initial[OF d assms(2)] have Fq0: "F q0 = Str ''q0''" by simp
  from ren assms(2) Fq0 have i': "initial_state P' = Some (Str ''q0'')"
    by (simp add: renamed_def)
  from renamed_accepts[OF ren inj assms(1) wf']
  have "\<forall>word acceptance_mode.
        accepts P' word acceptance_mode = accepts P word acceptance_mode" by blast
  with n ren inj Fq0 i' show ?thesis by blast
qed

theorem normalize_states_relabels_witness:
  "well_formed swap_P \<and> initial_state swap_P = Some (Str ''q1'') \<and>
   (\<exists>P' F. normalize_states swap_P = Inr P' \<and> renamed F swap_P P' \<and>
     inj_on F (set (states swap_P)) \<and> F (Str ''q1'') = Str ''q0'' \<and>
     initial_state P' = Some (Str ''q0'') \<and>
     (\<forall>word acceptance_mode.
        accepts P' word acceptance_mode = accepts swap_P word acceptance_mode))"
proof -
  from built_invariant[OF swap_built] have wf: "well_formed swap_P" by simp
  from normalize_states_relabels[OF wf swap_initial] wf swap_initial
  show ?thesis by blast
qed

text \<open>
  Claim C3.  Every automaton built by calls of \<open>add_state\<close>, \<open>mark_initial_state\<close>,
  \<open>set_initial_stack_symbol\<close> and \<open>add_transition\<close> alone satisfies the determinism
  invariant: no state and stack top carry both a \<open>\<lambda>\<close>-transition and a transition that
  reads a symbol, and \<open>is_deterministic\<close> returns \<open>True\<close>.  As every prefix of a script is a
  script, this holds after every operation.  \<open>normalize_states\<close> applied to such an
  automaton returns an automaton for which both hold again.
\<close>

theorem builder_deterministic:
  assumes "built P"
  shows "deterministic_table P \<and> is_deterministic P \<and>
     (\<exists>P'. normalize_states P = Inr P' \<and> deterministic_table P' \<and> is_deterministic P')"
proof -
  from built_invariant[OF assms] have wf: "well_formed P" and det: "deterministic_table P"
    by simp_all
  from normalize_states_correct[OF wf] obtain P' F where
    n: "normalize_states P = Inr P'" and ren: "renamed F P P'"
    and inj: "inj_on F (set (states P))"
    by blast
  from renamed_deterministic[OF ren inj wf det] have det': "deterministic_table P'" .
  from det det' n is_deterministic_if_table[OF det] is_deterministic_if_table[OF det']
  show ?thesis by blast
qed

theorem builder_deterministic_witness:
  "built swap_P \<and> deterministic_table swap_P \<and> is_deterministic swap_P \<and>
     (\<exists>P'. normalize_states swap_P = Inr P' \<and> deterministic_table P' \<and>
        is_deterministic P')"
  using builder_deterministic[OF swap_built] swap_built by blast

end
